theory Spec2Isabelle
  imports Main "HOL-Library.Word"
begin

section \<open>The flow graph of gflow as an explicit store\<close>

text \<open>
  The Go package \<^verbatim>\<open>gflow\<close> (file \<^verbatim>\<open>src/gflow/gflow.go\<close>) builds graphs of
  \<^verbatim>\<open>flowState\<close> and \<^verbatim>\<open>transition\<close> structs that point at each other and are
  mutated in place while a combinator runs. The embedding keeps that: a heap maps
  addresses to structs, \<^verbatim>\<open>new(flowState)\<close> takes the next unused address and stores
  the zero value there, and every method takes the heap and returns the new one.

  A \<^verbatim>\<open>Test\<close> and an \<^verbatim>\<open>Action\<close> are Go function values. The code compares tests
  with \<^verbatim>\<open>==\<close> (identity of the function value) and calls them on event data, so a
  test is a handle, and what a handle answers on an event is given by an interpretation
  \<open>T\<close> that the traversal takes as a parameter. An action is a handle too; calling it
  is recorded in the list of calls that \<open>Advance\<close> returns.

  Go's \<^verbatim>\<open>int\<close> is the 64-bit machine integer of the gc compiler on its 64-bit
  targets; identifiers are \<open>64 word\<close> and \<open>+\<close> wraps.
\<close>

type_synonym state_ptr = nat
type_synonym trans_ptr = nat
type_synonym Test = nat
type_synonym Action = nat

record flowState =
  ID :: "64 word"
  ins :: "trans_ptr list"
  out :: "trans_ptr list"
  andedStates :: "state_ptr option list"
  action :: "Action option"

record transition =
  test :: Test
  frm :: state_ptr
  to :: state_ptr

record heap =
  states :: "state_ptr \<Rightarrow> flowState"
  transitions :: "trans_ptr \<Rightarrow> transition"
  nstates :: nat
  ntrans :: nat

text \<open>
  A pointer in the model is never nil, except where the code itself produces nil: an
  entry of \<^verbatim>\<open>andedStates\<close> (a missing key of \<^verbatim>\<open>stateCopies\<close>), the result of
  \<^verbatim>\<open>copy\<close>, \<^verbatim>\<open>transitionWithTest\<close> and \<^verbatim>\<open>FindByID\<close>. These are options, and
  using a nil one is the panic \<open>NilDereference\<close>. Recursion over the graph takes
  fuel, the depth of nested calls it may use; \<open>OutOfFuel\<close> stands for a call chain
  deeper than that (on a cyclic store: one that never returns).
\<close>

datatype error = NilDereference | SliceBounds | OutOfFuel

definition bindE :: "error + 'a \<Rightarrow> ('a \<Rightarrow> error + 'b) \<Rightarrow> error + 'b" where
  "bindE m f = (case m of Inl e \<Rightarrow> Inl e | Inr x \<Rightarrow> f x)"

text \<open>A \<^verbatim>\<open>for _, x := range xs\<close> loop whose body may panic, over the state \<open>s\<close>.\<close>

primrec foldE :: "('a \<Rightarrow> 's \<Rightarrow> error + 's) \<Rightarrow> 'a list \<Rightarrow> 's \<Rightarrow> error + 's" where
  "foldE f [] s = Inr s"
| "foldE f (x # xs) s = (case f x s of Inl e \<Rightarrow> Inl e | Inr s' \<Rightarrow> foldE f xs s')"

text \<open>A loop that returns the first non-nil result of its body, and nil after the last.\<close>

primrec firstE :: "('a \<Rightarrow> error + 'b option) \<Rightarrow> 'a list \<Rightarrow> error + 'b option" where
  "firstE f [] = Inr None"
| "firstE f (x # xs) =
     (case f x of Inl e \<Rightarrow> Inl e
      | Inr None \<Rightarrow> firstE f xs
      | Inr (Some r) \<Rightarrow> Inr (Some r))"

primrec mapE :: "('a \<Rightarrow> error + 'b) \<Rightarrow> 'a list \<Rightarrow> error + 'b list" where
  "mapE f [] = Inr []"
| "mapE f (x # xs) =
     (case f x of Inl e \<Rightarrow> Inl e
      | Inr y \<Rightarrow> (case mapE f xs of Inl e \<Rightarrow> Inl e | Inr ys \<Rightarrow> Inr (y # ys)))"

subsection \<open>Allocation and field updates\<close>

definition zero_state :: flowState where
  "zero_state = \<lparr>ID = 0, ins = [], out = [], andedStates = [], action = None\<rparr>"

definition zero_trans :: transition where
  "zero_trans = \<lparr>test = 0, frm = 0, to = 0\<rparr>"

definition empty_heap :: heap where
  "empty_heap = \<lparr>states = (\<lambda>_. zero_state), transitions = (\<lambda>_. zero_trans),
     nstates = 0, ntrans = 0\<rparr>"

text \<open>\<^verbatim>\<open>new(flowState)\<close>\<close>

definition new_state :: "heap \<Rightarrow> heap \<times> state_ptr" where
  "new_state h =
     (h\<lparr>states := (states h)(nstates h := zero_state), nstates := Suc (nstates h)\<rparr>,
      nstates h)"

text \<open>\<^verbatim>\<open>&transition{test: .., from: .., to: ..}\<close>\<close>

definition new_trans :: "heap \<Rightarrow> transition \<Rightarrow> heap \<times> trans_ptr" where
  "new_trans h tr =
     (h\<lparr>transitions := (transitions h)(ntrans h := tr), ntrans := Suc (ntrans h)\<rparr>,
      ntrans h)"

definition upd_state :: "heap \<Rightarrow> state_ptr \<Rightarrow> (flowState \<Rightarrow> flowState) \<Rightarrow> heap" where
  "upd_state h s f = h\<lparr>states := (states h)(s := f (states h s))\<rparr>"

definition upd_trans :: "heap \<Rightarrow> trans_ptr \<Rightarrow> (transition \<Rightarrow> transition) \<Rightarrow> heap" where
  "upd_trans h t f = h\<lparr>transitions := (transitions h)(t := f (transitions h t))\<rparr>"

text \<open>
  \<^verbatim>\<open>func (state *flowState) addIn(trans *transition) {
      trans.to = state
      state.in = append(state.in, trans) }\<close>
\<close>

definition addIn :: "heap \<Rightarrow> state_ptr \<Rightarrow> trans_ptr \<Rightarrow> heap" where
  "addIn h state tran =
     upd_state (upd_trans h tran (\<lambda>t. t\<lparr>to := state\<rparr>)) state (\<lambda>s. s\<lparr>ins := ins s @ [tran]\<rparr>)"

text \<open>
  \<^verbatim>\<open>func (state *flowState) addOut(trans *transition) {
      trans.from = state
      state.out = append(state.out, trans) }\<close>
\<close>

definition addOut :: "heap \<Rightarrow> state_ptr \<Rightarrow> trans_ptr \<Rightarrow> heap" where
  "addOut h state tran =
     upd_state (upd_trans h tran (\<lambda>t. t\<lparr>frm := state\<rparr>)) state (\<lambda>s. s\<lparr>out := out s @ [tran]\<rparr>)"

subsection \<open>Traversal: Advance and Finished\<close>

text \<open>
  \<^verbatim>\<open>func (state *flowState) Advance(data EventData) *flowState {
      for _, tran := range state.out {
          if tran.test(data) {
              if tran.to.action != nil { tran.to.action(data) }
              return tran.to
          }
      }
      return state }\<close>
  The result is the state returned and the calls of actions made, in order.
\<close>

fun Advance_loop ::
  "(Test \<Rightarrow> 'e \<Rightarrow> bool) \<Rightarrow> heap \<Rightarrow> state_ptr \<Rightarrow> trans_ptr list \<Rightarrow> 'e \<Rightarrow> state_ptr \<times> (Action \<times> 'e) list"
where
  "Advance_loop T h state [] data = (state, [])"
| "Advance_loop T h state (tran # rest) data =
     (if T (test (transitions h tran)) data
      then (to (transitions h tran),
            (case action (states h (to (transitions h tran))) of
               None \<Rightarrow> []
             | Some act \<Rightarrow> [(act, data)]))
      else Advance_loop T h state rest data)"

definition Advance ::
  "(Test \<Rightarrow> 'e \<Rightarrow> bool) \<Rightarrow> heap \<Rightarrow> state_ptr \<Rightarrow> 'e \<Rightarrow> state_ptr \<times> (Action \<times> 'e) list"
where
  "Advance T h state data = Advance_loop T h state (out (states h state)) data"

text \<open>\<^verbatim>\<open>func (state *flowState) Finished() bool { return len(state.out) == 0 }\<close>\<close>

definition Finished :: "heap \<Rightarrow> state_ptr \<Rightarrow> bool" where
  "Finished h state = (length (out (states h state)) = 0)"

subsection \<open>Lifting a test, and the source of a state\<close>

text \<open>
  \<^verbatim>\<open>func (test Test) state() *flowState {
      from := new(flowState)
      to := new(flowState)
      trans := &transition{test: test, from: from, to: to}
      to.addIn(trans)
      from.addOut(trans)
      return to }\<close>
\<close>

definition Test_state :: "heap \<Rightarrow> Test \<Rightarrow> heap \<times> state_ptr" where
  "Test_state h tst =
     (let (h1, from) = new_state h;
          (h2, to') = new_state h1;
          (h3, tran) = new_trans h2 \<lparr>test = tst, frm = from, to = to'\<rparr>
      in (addOut (addIn h3 to' tran) from tran, to'))"

text \<open>
  The interface \<^verbatim>\<open>stateSource\<close> has two implementations: a \<^verbatim>\<open>*flowState\<close>, whose
  \<^verbatim>\<open>state()\<close> is itself, and a \<^verbatim>\<open>Test\<close>, whose \<^verbatim>\<open>state()\<close> lifts it.
\<close>

datatype stateSource = OfState state_ptr | OfTest Test

fun state :: "heap \<Rightarrow> stateSource \<Rightarrow> heap \<times> state_ptr" where
  "state h (OfState s) = (h, s)"
| "state h (OfTest tst) = Test_state h tst"

text \<open>
  \<^verbatim>\<open>func (state *flowState) DO(action Action) *flowState {
      state.action = action
      return state }\<close>
\<close>

definition DO :: "heap \<Rightarrow> state_ptr \<Rightarrow> Action option \<Rightarrow> heap \<times> state_ptr" where
  "DO h s act = (upd_state h s (\<lambda>st. st\<lparr>action := act\<rparr>), s)"

subsection \<open>Searching a state's outbound transitions by test identity\<close>

text \<open>
  \<^verbatim>\<open>func (state *flowState) transitionWithTest(test Test) *transition {
      for _, trans := range state.out {
          if trans.test == test { return trans }
      }
      return nil }
  func (state *flowState) hasTest(test Test) bool {
      return state.transitionWithTest(test) != nil }\<close>
\<close>

fun transitionWithTest_loop :: "heap \<Rightarrow> trans_ptr list \<Rightarrow> Test \<Rightarrow> trans_ptr option" where
  "transitionWithTest_loop h [] tst = None"
| "transitionWithTest_loop h (tran # rest) tst =
     (if test (transitions h tran) = tst then Some tran
      else transitionWithTest_loop h rest tst)"

definition transitionWithTest :: "heap \<Rightarrow> state_ptr \<Rightarrow> Test \<Rightarrow> trans_ptr option" where
  "transitionWithTest h s tst = transitionWithTest_loop h (out (states h s)) tst"

definition hasTest :: "heap \<Rightarrow> state_ptr \<Rightarrow> Test \<Rightarrow> bool" where
  "hasTest h s tst = (transitionWithTest h s tst \<noteq> None)"

subsection \<open>The root of a state\<close>

text \<open>
  \<^verbatim>\<open>func (state *flowState) root() *flowState {
      if len(state.in) == 0 { return state }
      return state.in[0].from.root() }\<close>
\<close>

fun root :: "nat \<Rightarrow> heap \<Rightarrow> state_ptr \<Rightarrow> error + state_ptr" where
  "root 0 h s = Inl OutOfFuel"
| "root (Suc n) h s =
     (case ins (states h s) of
        [] \<Rightarrow> Inr s
      | tran # _ \<Rightarrow> root n h (frm (transitions h tran)))"

subsection \<open>The copy engine\<close>

text \<open>
  \<^verbatim>\<open>func (state *flowState) doCopy(stateCopies map[*flowState]*flowState) *flowState {
      stateCopy := stateCopies[state]
      if stateCopy == nil {
          stateCopy = new(flowState)
          stateCopies[state] = stateCopy
      }
      for _, out := range state.out {
          newTo := out.to.doCopy(stateCopies)
          trans := &transition{test: out.test, from: stateCopy, to: newTo}
          stateCopy.addOut(trans)
          newTo.addIn(trans)
      }
      for _, andedState := range state.andedStates {
          stateCopy.andedStates = append(stateCopy.andedStates, stateCopies[andedState])
      }
      stateCopy.action = state.action
      return stateCopy }\<close>
  The map \<^verbatim>\<open>stateCopies\<close> is shared by all calls: it is threaded with the heap. A
  \<^verbatim>\<open>range\<close> loop evaluates its slice once, before the first iteration; the fields of
  the elements are read when the body runs.
\<close>

type_synonym stateCopies = "state_ptr \<rightharpoonup> state_ptr"

definition lookup_copy :: "stateCopies \<Rightarrow> state_ptr option \<Rightarrow> state_ptr option" where
  "lookup_copy m k = (case k of None \<Rightarrow> None | Some s \<Rightarrow> m s)"

text \<open>The first four lines: the copy of \<open>s\<close> on record, or a new state put on record.\<close>

definition copyOf :: "heap \<Rightarrow> state_ptr \<Rightarrow> stateCopies \<Rightarrow> heap \<times> stateCopies \<times> state_ptr" where
  "copyOf h s m =
     (case m s of
        None \<Rightarrow> (let (h', c) = new_state h in (h', m(s \<mapsto> c), c))
      | Some c \<Rightarrow> (h, m, c))"

text \<open>The body of the first loop; \<open>rec\<close> is the recursive call.\<close>

definition copyEdge ::
  "(heap \<Rightarrow> state_ptr \<Rightarrow> stateCopies \<Rightarrow> error + (heap \<times> stateCopies \<times> state_ptr))
     \<Rightarrow> state_ptr \<Rightarrow> trans_ptr \<Rightarrow> heap \<times> stateCopies \<Rightarrow> error + (heap \<times> stateCopies)"
where
  "copyEdge rec stateCopy out' hm =
     (case hm of (h, m) \<Rightarrow>
        bindE (rec h (to (transitions h out')) m) (\<lambda>(h', m', newTo).
          let (h'', tran) =
                new_trans h' \<lparr>test = test (transitions h' out'), frm = stateCopy, to = newTo\<rparr>
          in Inr (addIn (addOut h'' stateCopy tran) newTo tran, m')))"

text \<open>The second loop and the assignment of the action.\<close>

definition copyFields :: "heap \<Rightarrow> stateCopies \<Rightarrow> state_ptr \<Rightarrow> state_ptr \<Rightarrow> heap" where
  "copyFields h m stateCopy s =
     (let h3 = fold
                 (\<lambda>andedState h.
                    upd_state h stateCopy
                      (\<lambda>st. st\<lparr>andedStates := andedStates st @ [lookup_copy m andedState]\<rparr>))
                 (andedStates (states h s)) h
      in upd_state h3 stateCopy (\<lambda>st. st\<lparr>action := action (states h3 s)\<rparr>))"

primrec doCopy ::
  "nat \<Rightarrow> heap \<Rightarrow> state_ptr \<Rightarrow> stateCopies \<Rightarrow> error + (heap \<times> stateCopies \<times> state_ptr)"
where
  "doCopy 0 h s m = Inl OutOfFuel"
| "doCopy (Suc n) h s m =
     (case copyOf h s m of (h1, m1, stateCopy) \<Rightarrow>
        bindE (foldE (copyEdge (doCopy n) stateCopy) (out (states h1 s)) (h1, m1))
          (\<lambda>(h2, m2). Inr (copyFields h2 m2 stateCopy s, m2, stateCopy)))"

text \<open>
  \<^verbatim>\<open>func (state *flowState) copy() *flowState {
      stateCopies := make(map[*flowState]*flowState)
      state.root().doCopy(stateCopies)
      return stateCopies[state] }\<close>
  The result is nil when the walk from the root never reached \<open>state\<close>.
\<close>

definition copy :: "nat \<Rightarrow> heap \<Rightarrow> state_ptr \<Rightarrow> error + (heap \<times> state_ptr option)" where
  "copy n h s =
     bindE (root n h s) (\<lambda>r.
     bindE (doCopy n h r Map.empty) (\<lambda>(h', m, c). Inr (h', m s)))"

subsection \<open>THEN\<close>

text \<open>
  \<^verbatim>\<open>func (from *flowState) THEN(to stateSource) *flowState {
      newFrom := from.copy()
      toState := to.state().copy()
      for _, trans := range toState.root().out {
          newFrom.addOut(trans)
      }
      return toState }
  func (from Test) THEN(to stateSource) *flowState {
      return from.state().THEN(to) }\<close>
\<close>

definition THEN_state :: "nat \<Rightarrow> heap \<Rightarrow> state_ptr \<Rightarrow> stateSource \<Rightarrow> error + (heap \<times> state_ptr)" where
  "THEN_state n h from to' =
     bindE (copy n h from) (\<lambda>(h1, newFrom).
     let (h2, toSrc) = state h1 to' in
     bindE (copy n h2 toSrc) (\<lambda>(h3, toState).
       case toState of
         None \<Rightarrow> Inl NilDereference
       | Some toState' \<Rightarrow>
           bindE (root n h3 toState') (\<lambda>r.
           bindE (foldE
                    (\<lambda>tran h. case newFrom of
                                 None \<Rightarrow> Inl NilDereference
                               | Some newFrom' \<Rightarrow> Inr (addOut h newFrom' tran))
                    (out (states h3 r)) h3)
                 (\<lambda>h4. Inr (h4, toState')))))"

fun THEN :: "nat \<Rightarrow> heap \<Rightarrow> stateSource \<Rightarrow> stateSource \<Rightarrow> error + (heap \<times> state_ptr)" where
  "THEN n h (OfState from) to' = THEN_state n h from to'"
| "THEN n h (OfTest from) to' = (let (h1, s) = Test_state h from in THEN_state n h1 s to')"

subsection \<open>OR\<close>

text \<open>
  \<^verbatim>\<open>func (state *flowState) addOrStates(left *flowState, right *flowState, end *flowState) {
      for _, trans := range left.out {
          atEnd := len(trans.to.out) == 0
          var next *flowState
          var nextLeft = trans.to
          var nextRight = right
          if right.hasTest(trans.test) {
              nextRight = right.transitionWithTest(trans.test).to
          }
          if atEnd { next = end } else { next = new(flowState) }
          newTrans := &transition{test: trans.test, from: state, to: next}
          state.addOut(newTrans)
          next.addIn(newTrans)
          if !atEnd { next.addOrStates(nextLeft, nextRight, end) }
      }
      for _, trans := range right.out {
          if left.hasTest(trans.test) { continue }
          atEnd := len(trans.to.out) == 0
          var next *flowState
          if atEnd { next = end } else { next = new(flowState) }
          newTrans := &transition{test: trans.test, from: state, to: next}
          state.addOut(newTrans)
          next.addIn(newTrans)
          if !atEnd { next.addOrStates(left, trans.to, end) }
      }
  }\<close>
  The step shared by both loops, from \<^verbatim>\<open>if atEnd\<close> on, is \<open>addOrEdge\<close>; \<open>rec\<close> is
  the recursive call.
\<close>

definition addOrEdge ::
  "(heap \<Rightarrow> state_ptr \<Rightarrow> error + heap) \<Rightarrow> heap \<Rightarrow> state_ptr \<Rightarrow> Test \<Rightarrow> bool \<Rightarrow> state_ptr
     \<Rightarrow> error + heap"
where
  "addOrEdge rec h st tst atEnd end' =
     (let (h1, next) = (if atEnd then (h, end') else new_state h);
          (h2, newTrans) = new_trans h1 \<lparr>test = tst, frm = st, to = next\<rparr>;
          h3 = addIn (addOut h2 st newTrans) next newTrans
      in if \<not> atEnd then rec h3 next else Inr h3)"

primrec addOrStates ::
  "nat \<Rightarrow> heap \<Rightarrow> state_ptr \<Rightarrow> state_ptr \<Rightarrow> state_ptr \<Rightarrow> state_ptr \<Rightarrow> error + heap"
where
  "addOrStates 0 h st left right end' = Inl OutOfFuel"
| "addOrStates (Suc n) h st left right end' =
     bindE
       (foldE
          (\<lambda>tran h.
             let atEnd = (length (out (states h (to (transitions h tran)))) = 0);
                 nextLeft = to (transitions h tran)
             in bindE
                  (if hasTest h right (test (transitions h tran))
                   then (case transitionWithTest h right (test (transitions h tran)) of
                           None \<Rightarrow> Inl NilDereference
                         | Some rt \<Rightarrow> Inr (to (transitions h rt)))
                   else Inr right)
                  (\<lambda>nextRight.
                     addOrEdge (\<lambda>h' next. addOrStates n h' next nextLeft nextRight end')
                       h st (test (transitions h tran)) atEnd end'))
          (out (states h left)) h)
       (\<lambda>h1.
          foldE
            (\<lambda>tran h.
               if hasTest h left (test (transitions h tran)) then Inr h
               else
                 let atEnd = (length (out (states h (to (transitions h tran)))) = 0);
                     nextRight = to (transitions h tran)
                 in addOrEdge (\<lambda>h' next. addOrStates n h' next left nextRight end')
                      h st (test (transitions h tran)) atEnd end')
            (out (states h1 right)) h1)"

text \<open>
  \<^verbatim>\<open>func (state *flowState) OR(other stateSource) *flowState {
      otherState := other.state()
      start := new(flowState)
      end := new(flowState)
      root := state.root()
      otherRoot := otherState.root()
      start.addOrStates(root, otherRoot, end)
      return end }
  func (test Test) OR(other stateSource) *flowState {
      return test.state().OR(other) }\<close>
\<close>

definition OR_state :: "nat \<Rightarrow> heap \<Rightarrow> state_ptr \<Rightarrow> stateSource \<Rightarrow> error + (heap \<times> state_ptr)" where
  "OR_state n h st other =
     (let (h1, otherState) = state h other;
          (h2, start) = new_state h1;
          (h3, end') = new_state h2
      in bindE (root n h3 st) (\<lambda>root'.
         bindE (root n h3 otherState) (\<lambda>otherRoot.
         bindE (addOrStates n h3 start root' otherRoot end') (\<lambda>h4.
         Inr (h4, end')))))"

fun OR :: "nat \<Rightarrow> heap \<Rightarrow> stateSource \<Rightarrow> stateSource \<Rightarrow> error + (heap \<times> state_ptr)" where
  "OR n h (OfState st) other = OR_state n h st other"
| "OR n h (OfTest tst) other = (let (h1, s) = Test_state h tst in OR_state n h1 s other)"

subsection \<open>AND\<close>

text \<open>
  \<^verbatim>\<open>func replace(states []*flowState, index int, state *flowState) []*flowState {
      var result []*flowState
      result = append(result, states[0:index]...)
      result = append(result, state)
      result = append(result, states[index+1:len(states)]...)
      return result }\<close>
  The slice expression \<^verbatim>\<open>states[index+1:len(states)]\<close> panics when \<open>index\<close> is not
  below the length.
\<close>

definition replace :: "'a list \<Rightarrow> nat \<Rightarrow> 'a \<Rightarrow> error + 'a list" where
  "replace sts index st =
     (if index < length sts then Inr (take index sts @ [st] @ drop (index + 1) sts)
      else Inl SliceBounds)"

text \<open>
  \<^verbatim>\<open>func (state *flowState) addAndStates(andedStates []*flowState, end *flowState) {
      atEnd := true
      totalOuts := 0
      for _, andedState := range andedStates { totalOuts += len(andedState.out) }
      for i, andedState := range andedStates {
          for _, trans := range andedState.out {
              atEnd = false
              next := new(flowState)
              newTrans := &transition{test: trans.test, from: state, to: next}
              state.addOut(newTrans)
              next.addIn(newTrans)
              var nextAndedStates []*flowState
              nextAndedStates = replace(andedStates, i, trans.to)
              next.addAndStates(nextAndedStates, end)
          }
      }
      if atEnd {
          for _, trans := range state.in { end.addIn(trans) }
      }
  }\<close>
  \<^verbatim>\<open>totalOuts\<close> is computed and never read. The loop state is the heap and \<^verbatim>\<open>atEnd\<close>.
\<close>

primrec addAndStates ::
  "nat \<Rightarrow> heap \<Rightarrow> state_ptr \<Rightarrow> state_ptr list \<Rightarrow> state_ptr \<Rightarrow> error + heap"
where
  "addAndStates 0 h st anded end' = Inl OutOfFuel"
| "addAndStates (Suc n) h st anded end' =
     bindE
       (foldE
          (\<lambda>(i, andedState) (h, atEnd).
             foldE
               (\<lambda>tran (h, atEnd).
                  let (h1, next) = new_state h;
                      (h2, newTrans) =
                        new_trans h1 \<lparr>test = test (transitions h1 tran), frm = st, to = next\<rparr>;
                      h3 = addIn (addOut h2 st newTrans) next newTrans
                  in bindE (replace anded i (to (transitions h3 tran))) (\<lambda>nextAndedStates.
                     bindE (addAndStates n h3 next nextAndedStates end') (\<lambda>h4.
                     Inr (h4, False))))
               (out (states h andedState)) (h, atEnd))
          (enumerate 0 anded) (h, True))
       (\<lambda>(h1, atEnd).
          if atEnd then Inr (fold (\<lambda>tran h. addIn h end' tran) (ins (states h1 st)) h1)
          else Inr h1)"

text \<open>
  \<^verbatim>\<open>func (state *flowState) AND(other stateSource) *flowState {
      otherState := other.state()
      start := new(flowState)
      end := new(flowState)
      andedStates := state.andedStates
      if len(andedStates) == 0 { andedStates = append(andedStates, state) }
      andedStates = append(andedStates, otherState)
      end.andedStates = andedStates
      andedRoots := make([]*flowState, len(andedStates))
      for i, state := range andedStates { andedRoots[i] = state.root() }
      start.addAndStates(andedRoots, end)
      return end }
  func (test Test) AND(other stateSource) *flowState {
      return test.state().AND(other) }\<close>
  A slice is a list here: the sharing of a backing array between two results of
  \<^verbatim>\<open>append\<close> on the same slice is not modelled. \<^verbatim>\<open>root()\<close> of a nil entry panics.
\<close>

definition AND_state :: "nat \<Rightarrow> heap \<Rightarrow> state_ptr \<Rightarrow> stateSource \<Rightarrow> error + (heap \<times> state_ptr)" where
  "AND_state n h st other =
     (let (h1, otherState) = state h other;
          (h2, start) = new_state h1;
          (h3, end') = new_state h2;
          anded0 = andedStates (states h3 st);
          anded1 = (if length anded0 = 0 then anded0 @ [Some st] else anded0);
          anded2 = anded1 @ [Some otherState];
          h4 = upd_state h3 end' (\<lambda>s. s\<lparr>andedStates := anded2\<rparr>)
      in bindE (mapE (\<lambda>a. case a of None \<Rightarrow> Inl NilDereference | Some s \<Rightarrow> root n h4 s) anded2)
           (\<lambda>andedRoots.
         bindE (addAndStates n h4 start andedRoots end') (\<lambda>h5.
         Inr (h5, end'))))"

fun AND :: "nat \<Rightarrow> heap \<Rightarrow> stateSource \<Rightarrow> stateSource \<Rightarrow> error + (heap \<times> state_ptr)" where
  "AND n h (OfState st) other = AND_state n h st other"
| "AND n h (OfTest tst) other = (let (h1, s) = Test_state h tst in AND_state n h1 s other)"

subsection \<open>Build and FindByID\<close>

text \<open>
  \<^verbatim>\<open>func (state *flowState) assignIds(startingId int) int {
      currentId := startingId + 1
      state.ID = currentId
      for _, trans := range state.out {
          currentId = trans.to.assignIds(currentId)
      }
      return currentId }\<close>
\<close>

primrec assignIds :: "nat \<Rightarrow> heap \<Rightarrow> state_ptr \<Rightarrow> 64 word \<Rightarrow> error + (heap \<times> 64 word)" where
  "assignIds 0 h st startingId = Inl OutOfFuel"
| "assignIds (Suc n) h st startingId =
     (let currentId = startingId + 1;
          h1 = upd_state h st (\<lambda>s. s\<lparr>ID := currentId\<rparr>)
      in foldE (\<lambda>tran (h, currentId). assignIds n h (to (transitions h tran)) currentId)
           (out (states h1 st)) (h1, currentId))"

text \<open>
  \<^verbatim>\<open>func (state *flowState) Build() *flowState {
      root := state.root()
      root.assignIds(0)
      return root }\<close>
\<close>

definition Build :: "nat \<Rightarrow> heap \<Rightarrow> state_ptr \<Rightarrow> error + (heap \<times> state_ptr)" where
  "Build n h st =
     bindE (root n h st) (\<lambda>root'.
     bindE (assignIds n h root' 0) (\<lambda>(h', _).
     Inr (h', root')))"

text \<open>
  \<^verbatim>\<open>func (state *flowState) FindByID(id int) *flowState {
      if state.ID == id { return state }
      for _, trans := range state.out {
          result := trans.to.FindByID(id)
          if result != nil { return result }
      }
      return nil }\<close>
\<close>

primrec FindByID :: "nat \<Rightarrow> heap \<Rightarrow> state_ptr \<Rightarrow> 64 word \<Rightarrow> error + state_ptr option" where
  "FindByID 0 h st id' = Inl OutOfFuel"
| "FindByID (Suc n) h st id' =
     (if ID (states h st) = id' then Inr (Some st)
      else firstE (\<lambda>tran. FindByID n h (to (transitions h tran)) id') (out (states h st)))"

section \<open>Concrete flows\<close>

text \<open>
  The flow \<^verbatim>\<open>a.OR(b).DO(act)\<close> on the empty store, with \<open>a = 1\<close>, \<open>b = 2\<close> and
  \<open>act = 7\<close>: its start state is at address 4 and its end state at address 5.
\<close>

definition flow_a_or_b :: heap where
  "flow_a_or_b =
     (case OR 2 empty_heap (OfTest 1) (OfTest 2) of
        Inl _ \<Rightarrow> empty_heap
      | Inr (h, s) \<Rightarrow> fst (DO h s (Some 7)))"

section \<open>Driving a flow\<close>

text \<open>
  The caller's loop: \<^verbatim>\<open>state = state.Advance(event)\<close> for each event in turn.
\<close>

definition run :: "(Test \<Rightarrow> 'e \<Rightarrow> bool) \<Rightarrow> heap \<Rightarrow> state_ptr \<Rightarrow> 'e list \<Rightarrow> state_ptr" where
  "run T h s es = foldl (\<lambda>s e. fst (Advance T h s e)) s es"

text \<open>
  \<open>outcome n T flow es\<close>: the flow returned by a combinator is built, the events
  \<open>es\<close> are fed to it from the root, and the answer is whether the state reached is
  finished. It is an error when the combinator or \<open>Build\<close> did not return.
\<close>

definition outcome ::
  "nat \<Rightarrow> (Test \<Rightarrow> 'e \<Rightarrow> bool) \<Rightarrow> error + (heap \<times> state_ptr) \<Rightarrow> 'e list \<Rightarrow> error + bool"
where
  "outcome n T flow es =
     bindE flow (\<lambda>(h, s). bindE (Build n h s) (\<lambda>(h', r). Inr (Finished h' (run T h' r es))))"

text \<open>\<^verbatim>\<open>a.THEN(a).THEN(b)\<close>\<close>

definition flow_aab :: "nat \<Rightarrow> heap \<Rightarrow> Test \<Rightarrow> Test \<Rightarrow> error + (heap \<times> state_ptr)" where
  "flow_aab n h a b =
     bindE (THEN n h (OfTest a) (OfTest a)) (\<lambda>(h1, s). THEN n h1 (OfState s) (OfTest b))"

text \<open>\<^verbatim>\<open>a.AND(b)\<close>\<close>

definition flow_a_and_b :: "nat \<Rightarrow> heap \<Rightarrow> Test \<Rightarrow> Test \<Rightarrow> error + (heap \<times> state_ptr)" where
  "flow_a_and_b n h a b = AND n h (OfTest a) (OfTest b)"

section \<open>Identifier assignment, stated on lists\<close>

text \<open>
  The depth-first preorder walk from a state along outbound transitions: the states in
  the order they are entered, a state entered again on every path that leads to it.
\<close>

primrec preorder :: "nat \<Rightarrow> heap \<Rightarrow> state_ptr \<Rightarrow> error + state_ptr list" where
  "preorder 0 h s = Inl OutOfFuel"
| "preorder (Suc n) h s =
     bindE (mapE (\<lambda>t. preorder n h (to (transitions h t))) (out (states h s)))
       (\<lambda>vss. Inr (s # concat vss))"

text \<open>
  Numbering a list of visits: the count starts at \<open>k\<close>, each visit adds one to it and
  writes it to the state visited. A later visit of a state overwrites an earlier one.
\<close>

primrec number_from ::
  "(state_ptr \<Rightarrow> 64 word) \<Rightarrow> 64 word \<Rightarrow> state_ptr list \<Rightarrow> state_ptr \<Rightarrow> 64 word"
where
  "number_from ids k [] = ids"
| "number_from ids k (s # ss) = number_from (ids(s := k + 1)) (k + 1) ss"

definition ids_of :: "heap \<Rightarrow> state_ptr \<Rightarrow> 64 word" where
  "ids_of h s = ID (states h s)"

definition set_ids :: "heap \<Rightarrow> (state_ptr \<Rightarrow> 64 word) \<Rightarrow> heap" where
  "set_ids h ids = h\<lparr>states := (\<lambda>s. (states h s)\<lparr>ID := ids s\<rparr>)\<rparr>"

text \<open>One step backward along the first inbound transition, as \<^verbatim>\<open>root()\<close> takes it.\<close>

definition parent :: "heap \<Rightarrow> state_ptr \<Rightarrow> state_ptr" where
  "parent h s = (case ins (states h s) of [] \<Rightarrow> s | tran # _ \<Rightarrow> frm (transitions h tran))"

text \<open>The successor relation of the graph: one step along an outbound transition.\<close>

definition edges :: "heap \<Rightarrow> (state_ptr \<times> state_ptr) set" where
  "edges h = {(x, y). \<exists>t\<in>set (out (states h x)). y = to (transitions h t)}"

text \<open>
  A path from a state: at each state the position of the outbound transition taken.
  \<open>endpoint h s p\<close> is the state the path \<open>p\<close> leads to from \<open>s\<close>, if \<open>p\<close> is a
  path of the graph; \<open>paths\<close> lists the paths from a state in depth-first preorder.
\<close>

primrec endpoint :: "heap \<Rightarrow> state_ptr \<Rightarrow> nat list \<Rightarrow> state_ptr option" where
  "endpoint h s [] = Some s"
| "endpoint h s (i # p) =
     (if i < length (out (states h s))
      then endpoint h (to (transitions h (out (states h s) ! i))) p
      else None)"

primrec paths :: "nat \<Rightarrow> heap \<Rightarrow> state_ptr \<Rightarrow> error + nat list list" where
  "paths 0 h s = Inl OutOfFuel"
| "paths (Suc n) h s =
     bindE (mapE (\<lambda>i. bindE (paths n h (to (transitions h (out (states h s) ! i))))
                          (\<lambda>ps. Inr (map ((#) i) ps)))
              [0..<length (out (states h s))])
       (\<lambda>pss. Inr ([] # concat pss))"

section \<open>What a call may write\<close>

text \<open>
  \<open>frame N T h h'\<close>: the states below \<open>N\<close> and the transitions below \<open>T\<close> are the
  same in \<open>h'\<close> as in \<open>h\<close>, and nothing was deallocated. \<open>new_closed N T h\<close>: every
  pointer held by a state from \<open>N\<close> on or by a transition from \<open>T\<close> on leads to a state
  from \<open>N\<close> on or to a transition from \<open>T\<close> on. \<open>links\<close> is one step along any
  pointer of a state: through an outbound or an inbound transition to either of its
  ends, or to an entry of \<^verbatim>\<open>andedStates\<close>.
\<close>

definition frame :: "nat \<Rightarrow> nat \<Rightarrow> heap \<Rightarrow> heap \<Rightarrow> bool" where
  "frame N T h h' \<longleftrightarrow>
     (\<forall>x<N. states h' x = states h x) \<and> (\<forall>t<T. transitions h' t = transitions h t) \<and>
     nstates h \<le> nstates h' \<and> ntrans h \<le> ntrans h'"

definition state_new :: "nat \<Rightarrow> nat \<Rightarrow> heap \<Rightarrow> state_ptr \<Rightarrow> bool" where
  "state_new N T h x \<longleftrightarrow>
     (\<forall>t\<in>set (out (states h x)). T \<le> t \<and> t < ntrans h) \<and>
     (\<forall>t\<in>set (ins (states h x)). T \<le> t \<and> t < ntrans h) \<and>
     (\<forall>y. Some y \<in> set (andedStates (states h x)) \<longrightarrow> N \<le> y \<and> y < nstates h)"

definition trans_new :: "nat \<Rightarrow> heap \<Rightarrow> trans_ptr \<Rightarrow> bool" where
  "trans_new N h t \<longleftrightarrow>
     N \<le> frm (transitions h t) \<and> frm (transitions h t) < nstates h \<and>
     N \<le> to (transitions h t) \<and> to (transitions h t) < nstates h"

definition new_closed :: "nat \<Rightarrow> nat \<Rightarrow> heap \<Rightarrow> bool" where
  "new_closed N T h \<longleftrightarrow>
     N \<le> nstates h \<and> T \<le> ntrans h \<and>
     (\<forall>x. N \<le> x \<and> x < nstates h \<longrightarrow> state_new N T h x) \<and>
     (\<forall>t. T \<le> t \<and> t < ntrans h \<longrightarrow> trans_new N h t)"

definition copies_new :: "nat \<Rightarrow> heap \<Rightarrow> stateCopies \<Rightarrow> bool" where
  "copies_new N h m \<longleftrightarrow> (\<forall>k c. m k = Some c \<longrightarrow> N \<le> c \<and> c < nstates h)"

definition copy_inv :: "nat \<Rightarrow> nat \<Rightarrow> heap \<Rightarrow> stateCopies \<Rightarrow> bool" where
  "copy_inv N T h m \<longleftrightarrow> new_closed N T h \<and> copies_new N h m"

definition links :: "heap \<Rightarrow> (state_ptr \<times> state_ptr) set" where
  "links h =
     {(x, y). (\<exists>t\<in>set (out (states h x)) \<union> set (ins (states h x)).
                 y = frm (transitions h t) \<or> y = to (transitions h t)) \<or>
              Some y \<in> set (andedStates (states h x))}"

section \<open>The variant of the package in \<^verbatim>\<open>src/unnamed/part_004\<close>\<close>

text \<open>
  The repository holds a second version of the package, with the struct renamed to
  \<^verbatim>\<open>State\<close>. It differs from \<^verbatim>\<open>src/gflow/gflow.go\<close> in two functions.
  \<^verbatim>\<open>func (state *State) doCopy(stateCopies map[*State]*State) *State {
      stateCopy := stateCopies[state]
      if stateCopy != nil { return stateCopy }
      stateCopy = new(State)
      stateCopies[state] = stateCopy
      for _, out := range state.out { ... as before ... }
      for _, andedState := range state.andedStates {
          stateCopy.andedStates = append(stateCopy.andedStates, andedState.doCopy(stateCopies))
      }
      stateCopy.action = state.action
      return stateCopy }\<close>
\<close>

primrec doCopy_v2 ::
  "nat \<Rightarrow> heap \<Rightarrow> state_ptr \<Rightarrow> stateCopies \<Rightarrow> error + (heap \<times> stateCopies \<times> state_ptr)"
where
  "doCopy_v2 0 h s m = Inl OutOfFuel"
| "doCopy_v2 (Suc n) h s m =
     (case m s of
        Some c \<Rightarrow> Inr (h, m, c)
      | None \<Rightarrow>
          (case new_state h of (h1, stateCopy) \<Rightarrow>
             bindE (foldE (copyEdge (doCopy_v2 n) stateCopy) (out (states h1 s))
                      (h1, m(s \<mapsto> stateCopy)))
               (\<lambda>(h2, m2).
             bindE (foldE
                      (\<lambda>andedState (h, m).
                         case andedState of
                           None \<Rightarrow> Inl NilDereference
                         | Some a \<Rightarrow>
                             bindE (doCopy_v2 n h a m) (\<lambda>(h', m', c).
                               Inr (upd_state h' stateCopy
                                      (\<lambda>st. st\<lparr>andedStates := andedStates st @ [Some c]\<rparr>),
                                    m')))
                      (andedStates (states h2 s)) (h2, m2))
               (\<lambda>(h3, m3).
                  Inr (upd_state h3 stateCopy (\<lambda>st. st\<lparr>action := action (states h3 s)\<rparr>),
                       m3, stateCopy)))))"

text \<open>
  \<^verbatim>\<open>func (state *State) addOrStates(left *State, right *State, end *State) {
      for _, trans := range left.out {
          atEnd := len(trans.to.out) == 0
          var next *State
          var nextLeft = trans.to
          var nextRight = right
          if right.hasTest(trans.test) {
              rightTrans := right.transitionWithTest(trans.test)
              if len(rightTrans.to.out) == 0 { atEnd = true } else { nextRight = rightTrans.to }
          }
          ... as before ...\<close>
\<close>

primrec addOrStates_v2 ::
  "nat \<Rightarrow> heap \<Rightarrow> state_ptr \<Rightarrow> state_ptr \<Rightarrow> state_ptr \<Rightarrow> state_ptr \<Rightarrow> error + heap"
where
  "addOrStates_v2 0 h st left right end' = Inl OutOfFuel"
| "addOrStates_v2 (Suc n) h st left right end' =
     bindE
       (foldE
          (\<lambda>tran h.
             let atEnd = (length (out (states h (to (transitions h tran)))) = 0);
                 nextLeft = to (transitions h tran)
             in bindE
                  (if hasTest h right (test (transitions h tran))
                   then (case transitionWithTest h right (test (transitions h tran)) of
                           None \<Rightarrow> Inl NilDereference
                         | Some rightTrans \<Rightarrow>
                             if length (out (states h (to (transitions h rightTrans)))) = 0
                             then Inr (True, right)
                             else Inr (atEnd, to (transitions h rightTrans)))
                   else Inr (atEnd, right))
                  (\<lambda>(atEnd, nextRight).
                     addOrEdge (\<lambda>h' next. addOrStates_v2 n h' next nextLeft nextRight end')
                       h st (test (transitions h tran)) atEnd end'))
          (out (states h left)) h)
       (\<lambda>h1.
          foldE
            (\<lambda>tran h.
               if hasTest h left (test (transitions h tran)) then Inr h
               else
                 let atEnd = (length (out (states h (to (transitions h tran)))) = 0);
                     nextRight = to (transitions h tran)
                 in addOrEdge (\<lambda>h' next. addOrStates_v2 n h' next left nextRight end')
                      h st (test (transitions h tran)) atEnd end')
            (out (states h1 right)) h1)"

definition OR_state_v2 :: "nat \<Rightarrow> heap \<Rightarrow> state_ptr \<Rightarrow> stateSource \<Rightarrow> error + (heap \<times> state_ptr)" where
  "OR_state_v2 n h st other =
     (let (h1, otherState) = state h other;
          (h2, start) = new_state h1;
          (h3, end') = new_state h2
      in bindE (root n h3 st) (\<lambda>root'.
         bindE (root n h3 otherState) (\<lambda>otherRoot.
         bindE (addOrStates_v2 n h3 start root' otherRoot end') (\<lambda>h4.
         Inr (h4, end')))))"

fun OR_v2 :: "nat \<Rightarrow> heap \<Rightarrow> stateSource \<Rightarrow> stateSource \<Rightarrow> error + (heap \<times> state_ptr)" where
  "OR_v2 n h (OfState st) other = OR_state_v2 n h st other"
| "OR_v2 n h (OfTest tst) other = (let (h1, s) = Test_state h tst in OR_state_v2 n h1 s other)"

text \<open>
  Two flows for the cases below, on the empty store, with \<open>a = 1\<close>, \<open>b = 2\<close>, \<open>c = 3\<close>.
  \<^verbatim>\<open>a.OR(b).THEN(c)\<close>: its root is at address 6, the state both branches lead to at 7.
\<close>

definition flow_a_or_b_then_c :: "error + (heap \<times> state_ptr)" where
  "flow_a_or_b_then_c =
     bindE (OR 2 empty_heap (OfTest 1) (OfTest 2)) (\<lambda>(h, s). THEN 3 h (OfState s) (OfTest 3))"

text \<open>\<^verbatim>\<open>a.THEN(c)\<close>, the operand of \<^verbatim>\<open>a.OR(a.THEN(c))\<close> and of \<^verbatim>\<open>a.THEN(c).OR(a)\<close>.\<close>

definition flow_a_then_c :: "error + (heap \<times> state_ptr)" where
  "flow_a_then_c = THEN 2 empty_heap (OfTest 1) (OfTest 3)"

text \<open>The outbound transitions of a state, each as its test and its destination.\<close>

definition out_edges :: "heap \<Rightarrow> state_ptr \<Rightarrow> (Test \<times> state_ptr) list" where
  "out_edges h s = map (\<lambda>t. (test (transitions h t), to (transitions h t))) (out (states h s))"

section \<open>The node that \<^verbatim>\<open>addOrStates\<close> builds\<close>

text \<open>
  \<open>keep S h h'\<close>: from \<open>h\<close> to \<open>h'\<close> the store only grows, and of what \<open>h\<close> holds only
  the states in \<open>S\<close> are written.
\<close>

definition keep :: "state_ptr set \<Rightarrow> heap \<Rightarrow> heap \<Rightarrow> bool" where
  "keep S h h' \<longleftrightarrow>
     nstates h \<le> nstates h' \<and> ntrans h \<le> ntrans h' \<and>
     (\<forall>x<nstates h. x \<notin> S \<longrightarrow> states h' x = states h x) \<and>
     (\<forall>t<ntrans h. transitions h' t = transitions h t)"

text \<open>
  The tests on the outbound transitions of a state, in order; and the tests that
  the two loops of \<^verbatim>\<open>addOrStates\<close> go through for the pair \<open>(l, r)\<close>: every test of \<open>l\<close>,
  then the tests of \<open>r\<close> that \<open>l\<close> does not have.
\<close>

definition labels :: "heap \<Rightarrow> state_ptr \<Rightarrow> Test list" where
  "labels h s = map (\<lambda>t. test (transitions h t)) (out (states h s))"

definition or_labels :: "heap \<Rightarrow> state_ptr \<Rightarrow> state_ptr \<Rightarrow> Test list" where
  "or_labels h l r = labels h l @ filter (\<lambda>p. \<not> hasTest h l p) (labels h r)"

text \<open>
  The right state of the recursive call of the first loop:
  \<^verbatim>\<open>nextRight = right\<close>, or \<^verbatim>\<open>right.transitionWithTest(trans.test).to\<close> when \<^verbatim>\<open>right\<close> has
  the test.
\<close>

definition nextRight_of :: "heap \<Rightarrow> state_ptr \<Rightarrow> Test \<Rightarrow> state_ptr" where
  "nextRight_of h r p =
     (case transitionWithTest h r p of None \<Rightarrow> r | Some rt \<Rightarrow> to (transitions h rt))"

text \<open>
  The operands live below the address \<open>N\<close> and their transitions below \<open>T\<close>:
  \<open>old_closed\<close> says that their outbound transitions stay there, \<open>same_old\<close> that two
  stores agree there.
\<close>

definition old_closed :: "nat \<Rightarrow> nat \<Rightarrow> heap \<Rightarrow> bool" where
  "old_closed N T h \<longleftrightarrow>
     N \<le> nstates h \<and> T \<le> ntrans h \<and>
     (\<forall>x<N. \<forall>t\<in>set (out (states h x)). t < T \<and> to (transitions h t) < N)"

definition same_old :: "nat \<Rightarrow> nat \<Rightarrow> heap \<Rightarrow> heap \<Rightarrow> bool" where
  "same_old N T h h' \<longleftrightarrow>
     (\<forall>x<N. states h' x = states h x) \<and> (\<forall>t<T. transitions h' t = transitions h t)"

text \<open>
  \<open>edge_built h h' st r e t nt\<close>: in \<open>h'\<close> the transition \<open>nt\<close> is the edge that the first loop
  builds from \<open>st\<close> for the transition \<open>t\<close> of the left state in \<open>h\<close>. It has the test of
  \<open>t\<close>; it leads to \<open>e\<close> when the destination of \<open>t\<close> has no outbound transition, and
  otherwise to a state allocated since \<open>h\<close>, whose outbound tests are those of the pair
  (destination of \<open>t\<close>, \<open>nextRight\<close>). \<open>or_node\<close>: the outbound transitions added to \<open>st\<close>
  carry the tests \<open>or_labels\<close>, one each, and the first of them are the edges built for
  the transitions of \<open>l\<close>.
\<close>

definition edge_built ::
  "heap \<Rightarrow> heap \<Rightarrow> state_ptr \<Rightarrow> state_ptr \<Rightarrow> state_ptr \<Rightarrow> trans_ptr \<Rightarrow> trans_ptr \<Rightarrow> bool"
where
  "edge_built h h' st r e t nt \<longleftrightarrow>
     nt < ntrans h' \<and> test (transitions h' nt) = test (transitions h t) \<and>
     frm (transitions h' nt) = st \<and>
     (if out (states h (to (transitions h t))) = [] then to (transitions h' nt) = e
      else nstates h \<le> to (transitions h' nt) \<and> to (transitions h' nt) < nstates h' \<and>
           (\<forall>u\<in>set (out (states h' (to (transitions h' nt)))). u < ntrans h') \<and>
           labels h' (to (transitions h' nt)) =
             or_labels h (to (transitions h t)) (nextRight_of h r (test (transitions h t))))"

definition or_node :: "heap \<Rightarrow> heap \<Rightarrow> state_ptr \<Rightarrow> state_ptr \<Rightarrow> state_ptr \<Rightarrow> state_ptr \<Rightarrow> bool" where
  "or_node h h' st l r e \<longleftrightarrow>
     (\<exists>nts. out (states h' st) = out (states h st) @ nts \<and>
            (\<forall>u\<in>set nts. u < ntrans h') \<and>
            map (\<lambda>u. test (transitions h' u)) nts = or_labels h l r \<and>
            (\<forall>i<length (out (states h l)).
               edge_built h h' st r e (out (states h l) ! i) (nts ! i)))"

section \<open>Properties\<close>

subsection \<open>Advance\<close>

lemma Advance_loop_match:
  "i < length ts \<Longrightarrow> T (test (transitions h (ts ! i))) e \<Longrightarrow>
   \<forall>j<i. \<not> T (test (transitions h (ts ! j))) e \<Longrightarrow>
   Advance_loop T h s ts e =
     (to (transitions h (ts ! i)),
      case action (states h (to (transitions h (ts ! i)))) of None \<Rightarrow> [] | Some act \<Rightarrow> [(act, e)])"
proof (induction ts arbitrary: i)
  case Nil
  then show ?case by simp
next
  case (Cons t ts)
  show ?case
  proof (cases i)
    case 0
    with Cons.prems show ?thesis by simp
  next
    case (Suc k)
    from Cons.prems Suc have "\<not> T (test (transitions h t)) e" by auto
    moreover from Cons.prems Suc have "k < length ts" "T (test (transitions h (ts ! k))) e"
      "\<forall>j<k. \<not> T (test (transitions h (ts ! j))) e" by auto
    ultimately show ?thesis using Cons.IH[of k] Suc by simp
  qed
qed

lemma Advance_loop_no_match:
  "\<forall>t\<in>set ts. \<not> T (test (transitions h t)) e \<Longrightarrow> Advance_loop T h s ts e = (s, [])"
  by (induction ts) auto

text \<open>
  Claim C2. \<open>Advance\<close> scans the outbound transitions of the state in insertion order.
  If the transition at position \<open>i\<close> is the first whose test accepts the event, the
  result is its destination, and the calls made are exactly one call of the
  destination's action on the event when it has one, and none otherwise. If no
  outbound transition accepts the event, the result is the state itself and nothing is
  called. \<open>Advance\<close> takes the store and returns none: it writes nothing.
\<close>

theorem Advance_first_match:
  "(\<forall>i. i < length (out (states h s)) \<and> T (test (transitions h (out (states h s) ! i))) e \<and>
        (\<forall>j<i. \<not> T (test (transitions h (out (states h s) ! j))) e) \<longrightarrow>
        Advance T h s e =
          (to (transitions h (out (states h s) ! i)),
           case action (states h (to (transitions h (out (states h s) ! i)))) of
             None \<Rightarrow> []
           | Some act \<Rightarrow> [(act, e)]))
   \<and> ((\<forall>t\<in>set (out (states h s)). \<not> T (test (transitions h t)) e) \<longrightarrow>
        Advance T h s e = (s, []))"
  unfolding Advance_def
  using Advance_loop_match[of _ "out (states h s)" T h e s]
    Advance_loop_no_match[of "out (states h s)" T h e s]
  by blast

lemma flow_a_or_b_out: "out (states flow_a_or_b 4) = [2, 3]"
  by code_simp

lemma flow_a_or_b_edges:
  "map (\<lambda>t. (test (transitions flow_a_or_b t), to (transitions flow_a_or_b t))) [2, 3]
     = [(1, 5), (2, 5)]"
  by code_simp

lemma flow_a_or_b_action: "action (states flow_a_or_b 5) = Some 7"
  by code_simp

theorem Advance_first_match_witness:
  "Advance (=) flow_a_or_b 4 (2::nat) = (5, [(7, 2)]) \<and>
   Advance (=) flow_a_or_b 4 (3::nat) = (4, [])"
  using Advance_first_match[of flow_a_or_b 4 "(=)" 2, THEN conjunct1, THEN spec, of 1]
    Advance_first_match[of flow_a_or_b 4 "(=)" 3, THEN conjunct2]
    flow_a_or_b_out flow_a_or_b_edges flow_a_or_b_action
  by simp

subsection \<open>Sequencing: \<^verbatim>\<open>a.THEN(a).THEN(b)\<close>\<close>

lemmas model_defs = bindE_def Test_state_def new_state_def new_trans_def addIn_def addOut_def
  upd_state_def upd_trans_def copy_def THEN_state_def lookup_copy_def zero_state_def
  copyOf_def copyEdge_def copyFields_def

lemma aab_shape:
  "\<exists>h' s0 s1 s2 s3 t0 t1 t2.
     bindE (flow_aab (Suc (Suc (Suc (Suc k)))) h a b) (\<lambda>(h1, s). Build (Suc (Suc (Suc (Suc k)))) h1 s) = Inr (h', s0) \<and>
     out (states h' s0) = [t0] \<and> test (transitions h' t0) = a \<and> to (transitions h' t0) = s1 \<and>
     out (states h' s1) = [t1] \<and> test (transitions h' t1) = a \<and> to (transitions h' t1) = s2 \<and>
     out (states h' s2) = [t2] \<and> test (transitions h' t2) = b \<and> to (transitions h' t2) = s3 \<and>
     out (states h' s3) = []"
  by (simp add: flow_aab_def model_defs Build_def Let_def)


lemma Advance_single:
  "out (states h s) = [t] \<Longrightarrow>
   fst (Advance T h s e) = (if T (test (transitions h t)) e then to (transitions h t) else s)"
  by (simp add: Advance_def)

lemma Advance_terminal: "out (states h s) = [] \<Longrightarrow> fst (Advance T h s e) = s"
  by (simp add: Advance_def)

text \<open>
  Claim C5. Let \<open>a\<close> accept the event \<open>A\<close> and \<open>b\<close> accept \<open>B\<close>. On any store and
  with any fuel of at least 4, \<^verbatim>\<open>a.THEN(a).THEN(b)\<close> is built, and from its root the
  events \<open>[A, B]\<close> do not reach a finished state, while \<open>[A, A, B]\<close>,
  \<open>[A, X, A, Y, B]\<close> (\<open>a\<close> rejecting \<open>X\<close> and \<open>b\<close> rejecting \<open>Y\<close>) and
  \<open>[A, A, A, A, B]\<close> do.
\<close>

theorem THEN_aab_sequences:
  assumes "T a A" and "T b B" and "\<not> T a X" and "\<not> T b Y"
  shows "outcome (Suc (Suc (Suc (Suc k)))) T (flow_aab (Suc (Suc (Suc (Suc k)))) h a b) [A, B] = Inr False \<and>
         outcome (Suc (Suc (Suc (Suc k)))) T (flow_aab (Suc (Suc (Suc (Suc k)))) h a b) [A, A, B] = Inr True \<and>
         outcome (Suc (Suc (Suc (Suc k)))) T (flow_aab (Suc (Suc (Suc (Suc k)))) h a b) [A, X, A, Y, B] = Inr True \<and>
         outcome (Suc (Suc (Suc (Suc k)))) T (flow_aab (Suc (Suc (Suc (Suc k)))) h a b) [A, A, A, A, B] = Inr True"
proof -
  let ?n = "Suc (Suc (Suc (Suc k)))"
  obtain h' s0 s1 s2 s3 t0 t1 t2 where
    built: "bindE (flow_aab ?n h a b) (\<lambda>(h1, s). Build ?n h1 s) = Inr (h', s0)" and
    e0: "out (states h' s0) = [t0]" "test (transitions h' t0) = a" "to (transitions h' t0) = s1" and
    e1: "out (states h' s1) = [t1]" "test (transitions h' t1) = a" "to (transitions h' t1) = s2" and
    e2: "out (states h' s2) = [t2]" "test (transitions h' t2) = b" "to (transitions h' t2) = s3" and
    e3: "out (states h' s3) = []"
    using aab_shape[of k h a b] by blast
  have oc: "outcome ?n T (flow_aab ?n h a b) es = Inr (Finished h' (run T h' s0 es))" for es
    using built by (auto simp: outcome_def bindE_def split: sum.splits)
  have a0: "fst (Advance T h' s0 e) = (if T a e then s1 else s0)" for e
    by (simp add: Advance_single[OF e0(1)] e0(2,3))
  have a1: "fst (Advance T h' s1 e) = (if T a e then s2 else s1)" for e
    by (simp add: Advance_single[OF e1(1)] e1(2,3))
  have a2: "fst (Advance T h' s2 e) = (if T b e then s3 else s2)" for e
    by (simp add: Advance_single[OF e2(1)] e2(2,3))
  have a3: "fst (Advance T h' s3 e) = s3" for e
    by (simp add: Advance_terminal[OF e3])
  have f: "\<not> Finished h' s0" "\<not> Finished h' s1" "\<not> Finished h' s2" "Finished h' s3"
    using e0 e1 e2 e3 by (simp_all add: Finished_def)
  have r1: "\<not> Finished h' (run T h' s0 [A, B])"
    using assms f by (simp add: run_def a0 a1)
  have r2: "Finished h' (run T h' s0 [A, A, B])"
    using assms f by (simp add: run_def a0 a1 a2)
  have r3: "Finished h' (run T h' s0 [A, X, A, Y, B])"
    using assms f by (simp add: run_def a0 a1 a2)
  have r4: "Finished h' (run T h' s0 [A, A, A, A, B])"
    using assms f by (simp add: run_def a0 a1 a2 a3)
  show ?thesis using r1 r2 r3 r4 by (simp add: oc)
qed

theorem THEN_aab_sequences_witness:
  "outcome 4 (=) (flow_aab 4 empty_heap 1 2) [1, 2 :: nat] = Inr False \<and>
   outcome 4 (=) (flow_aab 4 empty_heap 1 2) [1, 1, 2 :: nat] = Inr True \<and>
   outcome 4 (=) (flow_aab 4 empty_heap 1 2) [1, 8, 1, 9, 2 :: nat] = Inr True \<and>
   outcome 4 (=) (flow_aab 4 empty_heap 1 2) [1, 1, 1, 1, 2 :: nat] = Inr True"
  using THEN_aab_sequences[of "(=)" 1 1 2 2 8 9 0 empty_heap]
  by (simp add: eval_nat_numeral)

subsection \<open>Conjunction: \<^verbatim>\<open>a.AND(b)\<close>\<close>

lemma a_and_b_shape:
  "\<exists>h' r n1 n3 e t0 t1 t2 t3.
     bindE (flow_a_and_b (Suc (Suc (Suc k))) h a b) (\<lambda>(h1, s). Build (Suc (Suc (Suc k))) h1 s) = Inr (h', r) \<and>
     out (states h' r) = [t0, t1] \<and>
     test (transitions h' t0) = a \<and> to (transitions h' t0) = n1 \<and>
     test (transitions h' t1) = b \<and> to (transitions h' t1) = n3 \<and>
     out (states h' n1) = [t2] \<and> test (transitions h' t2) = b \<and> to (transitions h' t2) = e \<and>
     out (states h' n3) = [t3] \<and> test (transitions h' t3) = a \<and> to (transitions h' t3) = e \<and>
     out (states h' e) = []"
  by (simp add: flow_a_and_b_def AND_state_def replace_def model_defs Build_def Let_def)

lemma run_append: "run T h s (xs @ ys) = run T h (run T h s xs) ys"
  by (simp add: run_def)

lemma run_Cons: "run T h s (e # es) = run T h (fst (Advance T h s e)) es"
  by (simp add: run_def)

lemma run_Nil: "run T h s [] = s"
  by (simp add: run_def)

lemma run_stay: "\<forall>e\<in>set es. fst (Advance T h s e) = s \<Longrightarrow> run T h s es = s"
  by (induction es) (auto simp: run_Cons run_Nil)

lemma Advance_pair:
  "out (states h s) = [t, u] \<Longrightarrow>
   fst (Advance T h s e) =
     (if T (test (transitions h t)) e then to (transitions h t)
      else if T (test (transitions h u)) e then to (transitions h u) else s)"
  by (simp add: Advance_def)

text \<open>
  Claim C6. Let \<open>a\<close> accept \<open>A\<close> and reject \<open>B\<close>, and \<open>b\<close> accept \<open>B\<close>. On any
  store and with any fuel of at least 3, \<^verbatim>\<open>a.AND(b)\<close> is built and reaches a finished
  state on \<open>[A, B]\<close> and on \<open>[B, A]\<close>. It still does when events are inserted that no
  pending branch accepts: events \<open>xs\<close> that neither test accepts before the first
  step, events that the remaining test rejects between the two steps (\<open>ys\<close> while
  \<open>b\<close> is pending, \<open>ys'\<close> while \<open>a\<close> is), and any events \<open>zs\<close> after the second.
\<close>

theorem AND_ab_any_order:
  assumes "T a A" and "T b B" and "\<not> T a B"
    and "\<forall>e\<in>set xs. \<not> T a e \<and> \<not> T b e" and "\<forall>e\<in>set ys. \<not> T b e" and "\<forall>e\<in>set ys'. \<not> T a e"
  shows "outcome (Suc (Suc (Suc k))) T (flow_a_and_b (Suc (Suc (Suc k))) h a b) [A, B] = Inr True \<and>
         outcome (Suc (Suc (Suc k))) T (flow_a_and_b (Suc (Suc (Suc k))) h a b) [B, A] = Inr True \<and>
         outcome (Suc (Suc (Suc k))) T (flow_a_and_b (Suc (Suc (Suc k))) h a b) (xs @ [A] @ ys @ [B] @ zs) = Inr True \<and>
         outcome (Suc (Suc (Suc k))) T (flow_a_and_b (Suc (Suc (Suc k))) h a b) (xs @ [B] @ ys' @ [A] @ zs) = Inr True"
proof -
  let ?n = "Suc (Suc (Suc k))"
  obtain h' r n1 n3 e t0 t1 t2 t3 where
    built: "bindE (flow_a_and_b ?n h a b) (\<lambda>(h1, s). Build ?n h1 s) = Inr (h', r)" and
    er: "out (states h' r) = [t0, t1]" "test (transitions h' t0) = a" "to (transitions h' t0) = n1"
        "test (transitions h' t1) = b" "to (transitions h' t1) = n3" and
    e1: "out (states h' n1) = [t2]" "test (transitions h' t2) = b" "to (transitions h' t2) = e" and
    e3: "out (states h' n3) = [t3]" "test (transitions h' t3) = a" "to (transitions h' t3) = e" and
    ee: "out (states h' e) = []"
    using a_and_b_shape[of k h a b] by blast
  have oc: "outcome ?n T (flow_a_and_b ?n h a b) es = Inr (Finished h' (run T h' r es))" for es
    using built by (auto simp: outcome_def bindE_def split: sum.splits)
  have ar: "fst (Advance T h' r x) = (if T a x then n1 else if T b x then n3 else r)" for x
    by (simp add: Advance_pair[OF er(1)] er(2-5))
  have a1: "fst (Advance T h' n1 x) = (if T b x then e else n1)" for x
    by (simp add: Advance_single[OF e1(1)] e1(2,3))
  have a3: "fst (Advance T h' n3 x) = (if T a x then e else n3)" for x
    by (simp add: Advance_single[OF e3(1)] e3(2,3))
  have ae: "fst (Advance T h' e x) = e" for x
    by (simp add: Advance_terminal[OF ee])
  have fin: "Finished h' e" using ee by (simp add: Finished_def)
  have sx: "run T h' r xs = r" using assms(4) by (intro run_stay) (simp add: ar)
  have sy: "run T h' n1 ys = n1" using assms(5) by (intro run_stay) (simp add: a1)
  have sy': "run T h' n3 ys' = n3" using assms(6) by (intro run_stay) (simp add: a3)
  have sz: "run T h' e zs = e" by (intro run_stay) (simp add: ae)
  have r1: "run T h' r [A, B] = e" using assms(1,2) by (simp add: run_Cons run_Nil ar a1)
  have r2: "run T h' r [B, A] = e" using assms(1,2,3) by (simp add: run_Cons run_Nil ar a3)
  have r3: "run T h' r (xs @ [A] @ ys @ [B] @ zs) = e"
    using assms(1,2) by (simp add: run_append sx sy sz run_Cons run_Nil ar a1)
  have r4: "run T h' r (xs @ [B] @ ys' @ [A] @ zs) = e"
    using assms(1,2,3) by (simp add: run_append sx sy' sz run_Cons run_Nil ar a3)
  show ?thesis using fin r1 r2 r3 r4 by (simp add: oc)
qed

theorem AND_ab_any_order_witness:
  "outcome 3 (=) (flow_a_and_b 3 empty_heap 1 2) [1, 2 :: nat] = Inr True \<and>
   outcome 3 (=) (flow_a_and_b 3 empty_heap 1 2) [2, 1 :: nat] = Inr True \<and>
   outcome 3 (=) (flow_a_and_b 3 empty_heap 1 2) ([6, 3] @ [1] @ [1, 5] @ [2] @ [4 :: nat]) = Inr True \<and>
   outcome 3 (=) (flow_a_and_b 3 empty_heap 1 2) ([6, 3] @ [2] @ [2, 5] @ [1] @ [4 :: nat]) = Inr True"
  using AND_ab_any_order[of "(=)" 1 1 2 2 "[6, 3]" "[1, 5]" "[2, 5]" 0 empty_heap "[4]"]
  by (simp add: eval_nat_numeral)

subsection \<open>Build: the root and the numbering\<close>

lemma set_ids_simps [simp]:
  "transitions (set_ids h f) = transitions h"
  "out (states (set_ids h f) s) = out (states h s)"
  "ins (states (set_ids h f) s) = ins (states h s)"
  "ID (states (set_ids h f) s) = f s"
  "nstates (set_ids h f) = nstates h"
  "ntrans (set_ids h f) = ntrans h"
  by (simp_all add: set_ids_def)

lemma set_ids_set_ids [simp]: "set_ids (set_ids h f) g = set_ids h g"
  by (simp add: set_ids_def)

lemma set_ids_same: "set_ids h (ids_of h) = h"
  by (simp add: set_ids_def ids_of_def)

lemma upd_ID_set_ids:
  "upd_state (set_ids h f) s (\<lambda>st. st\<lparr>ID := c\<rparr>) = set_ids h (f(s := c))"
  by (auto simp: upd_state_def set_ids_def fun_eq_iff)

lemma preorder_set_ids [simp]: "preorder n (set_ids h f) s = preorder n h s"
  by (induction n arbitrary: s) simp_all

lemma number_from_append:
  "number_from f k (xs @ ys) = number_from (number_from f k xs) (k + of_nat (length xs)) ys"
  by (induction xs arbitrary: f k) (simp_all add: add.assoc add.commute)

lemma assignIds_loop:
  assumes IH: "\<And>f s k. assignIds n (set_ids h f) s k =
                 bindE (preorder n h s) (\<lambda>vs. Inr (set_ids h (number_from f k vs), k + of_nat (length vs)))"
  shows "foldE (\<lambda>tran (h, cur). assignIds n h (to (transitions h tran)) cur) ts (set_ids h f, k) =
         bindE (mapE (\<lambda>t. preorder n h (to (transitions h t))) ts)
           (\<lambda>vss. Inr (set_ids h (number_from f k (concat vss)), k + of_nat (length (concat vss))))"
proof (induction ts arbitrary: f k)
  case Nil
  then show ?case by (simp add: bindE_def)
next
  case (Cons t ts)
  show ?case
    by (simp add: IH Cons.IH bindE_def number_from_append add.assoc split: sum.splits)
qed

lemma assignIds_preorder:
  "assignIds n (set_ids h f) s k =
     bindE (preorder n h s) (\<lambda>vs. Inr (set_ids h (number_from f k vs), k + of_nat (length vs)))"
proof (induction n arbitrary: f s k)
  case 0
  then show ?case by (simp add: bindE_def)
next
  case (Suc n)
  have "assignIds (Suc n) (set_ids h f) s k =
        foldE (\<lambda>tran (h, cur). assignIds n h (to (transitions h tran)) cur)
          (out (states h s)) (set_ids h (f(s := k + 1)), k + 1)"
    by (simp add: Let_def upd_ID_set_ids)
  also have "\<dots> = bindE (mapE (\<lambda>t. preorder n h (to (transitions h t))) (out (states h s)))
           (\<lambda>vss. Inr (set_ids h (number_from (f(s := k + 1)) (k + 1) (concat vss)),
                         k + 1 + of_nat (length (concat vss))))"
    by (rule assignIds_loop) (rule Suc.IH)
  finally show ?case
    by (simp add: bindE_def add.assoc add.commute split: sum.splits)
qed


lemma number_from_notin: "x \<notin> set vs \<Longrightarrow> number_from f k vs x = f x"
  by (induction vs arbitrary: f k) auto

lemma number_from_last:
  "i < length vs \<Longrightarrow> \<forall>j. i < j \<and> j < length vs \<longrightarrow> vs ! j \<noteq> vs ! i \<Longrightarrow>
   number_from f k vs (vs ! i) = k + of_nat (Suc i)"
proof (induction vs arbitrary: f k i)
  case Nil
  then show ?case by simp
next
  case (Cons v vs)
  show ?case
  proof (cases i)
    case 0
    have "v \<notin> set vs"
    proof
      assume "v \<in> set vs"
      then obtain j where "j < length vs" "vs ! j = v" by (auto simp: in_set_conv_nth)
      with Cons.prems(2)[rule_format, of "Suc j"] 0 show False by simp
    qed
    then show ?thesis using 0 by (simp add: number_from_notin)
  next
    case (Suc i')
    have "i' < length vs" using Cons.prems(1) Suc by simp
    moreover have "\<forall>j. i' < j \<and> j < length vs \<longrightarrow> vs ! j \<noteq> vs ! i'"
    proof (intro allI impI)
      fix j assume "i' < j \<and> j < length vs"
      with Cons.prems(2)[rule_format, of "Suc j"] Suc show "vs ! j \<noteq> vs ! i'" by simp
    qed
    ultimately have "number_from (f(v := k + 1)) (k + 1) vs (vs ! i') = (k + 1) + of_nat (Suc i')"
      by (rule Cons.IH)
    then show ?thesis using Suc by (simp add: add.assoc add.commute)
  qed
qed

lemma last_visit_ex:
  "x \<in> set vs \<Longrightarrow> \<exists>i<length vs. vs ! i = x \<and> (\<forall>j. i < j \<and> j < length vs \<longrightarrow> vs ! j \<noteq> x)"
proof (induction vs)
  case Nil
  then show ?case by simp
next
  case (Cons v vs)
  show ?case
  proof (cases "x \<in> set vs")
    case True
    then obtain i where i: "i < length vs" "vs ! i = x" "\<forall>j. i < j \<and> j < length vs \<longrightarrow> vs ! j \<noteq> x"
      using Cons.IH by blast
    have "\<forall>j. Suc i < j \<and> j < length (v # vs) \<longrightarrow> (v # vs) ! j \<noteq> x"
    proof (intro allI impI)
      fix j assume j: "Suc i < j \<and> j < length (v # vs)"
      then obtain j' where "j = Suc j'" by (cases j) auto
      with j i(3) show "(v # vs) ! j \<noteq> x" by simp
    qed
    with i(1,2) show ?thesis by (intro exI[of _ "Suc i"]) simp
  next
    case False
    with Cons.prems have "x = v" by simp
    moreover have "\<forall>j. 0 < j \<and> j < length (v # vs) \<longrightarrow> (v # vs) ! j \<noteq> x"
    proof (intro allI impI)
      fix j assume j: "0 < j \<and> j < length (v # vs)"
      then obtain j' where "j = Suc j'" by (cases j) auto
      with j False show "(v # vs) ! j \<noteq> x" by (auto simp: in_set_conv_nth)
    qed
    ultimately show ?thesis by (intro exI[of _ 0]) simp
  qed
qed

lemma find_append_sum:
  "find P (xs @ ys) = (case find P xs of None \<Rightarrow> find P ys | Some x \<Rightarrow> Some x)"
  by (induction xs) auto

lemma mapE_Inr_Cons:
  "mapE f (x # xs) = Inr ys \<longleftrightarrow> (\<exists>y ys'. f x = Inr y \<and> mapE f xs = Inr ys' \<and> ys = y # ys')"
  by (auto split: sum.splits)

lemma FindByID_loop:
  assumes IH: "\<And>s vs. preorder n h s = Inr vs \<Longrightarrow>
                 FindByID n h s id' = Inr (find (\<lambda>x. ID (states h x) = id') vs)"
  shows "mapE (\<lambda>t. preorder n h (to (transitions h t))) ts = Inr vss \<Longrightarrow>
         firstE (\<lambda>tran. FindByID n h (to (transitions h tran)) id') ts =
           Inr (find (\<lambda>x. ID (states h x) = id') (concat vss))"
proof (induction ts arbitrary: vss)
  case Nil
  then show ?case by simp
next
  case (Cons t ts)
  from Cons.prems obtain vs vss' where
    a: "preorder n h (to (transitions h t)) = Inr vs"
       "mapE (\<lambda>t. preorder n h (to (transitions h t))) ts = Inr vss'" "vss = vs # vss'"
    by (auto split: sum.splits)
  show ?case
    using IH[OF a(1)] Cons.IH[OF a(2)] a(3)
    by (simp add: find_append_sum split: option.splits)
qed

lemma FindByID_preorder:
  "preorder n h s = Inr vs \<Longrightarrow> FindByID n h s id' = Inr (find (\<lambda>x. ID (states h x) = id') vs)"
proof (induction n arbitrary: s vs)
  case 0
  then show ?case by simp
next
  case (Suc n)
  from Suc.prems obtain vss where
    v: "mapE (\<lambda>t. preorder n h (to (transitions h t))) (out (states h s)) = Inr vss" "vs = s # concat vss"
    by (auto simp: bindE_def split: sum.splits)
  show ?case
    using FindByID_loop[of n h id', OF Suc.IH v(1)] v(2) by simp
qed

lemma root_parent:
  "root n h s = Inr r \<Longrightarrow> ins (states h r) = [] \<and> (\<exists>k<n. r = (parent h ^^ k) s)"
proof (induction n arbitrary: s)
  case 0
  then show ?case by simp
next
  case (Suc n)
  show ?case
  proof (cases "ins (states h s)")
    case Nil
    with Suc.prems have "r = s" by simp
    with Nil show ?thesis by (auto intro: exI[of _ 0])
  next
    case (Cons t ts)
    with Suc.prems have "root n h (frm (transitions h t)) = Inr r" by simp
    from Suc.IH[OF this] obtain k where
      k: "ins (states h r) = []" "k < n" "r = (parent h ^^ k) (frm (transitions h t))" by blast
    have "parent h s = frm (transitions h t)" using Cons by (simp add: parent_def)
    with k(3) have "r = (parent h ^^ Suc k) s" by (simp add: funpow_swap1)
    with k(1,2) show ?thesis by (intro conjI exI[of _ "Suc k"]) auto
  qed
qed

lemma root_total:
  assumes "\<forall>x t ts. ins (states h x) = t # ts \<longrightarrow> rk (frm (transitions h t)) < rk x"
  shows "rk s < n \<Longrightarrow> \<exists>r. root n h s = Inr r"
proof (induction n arbitrary: s)
  case 0
  then show ?case by simp
next
  case (Suc n)
  show ?case
  proof (cases "ins (states h s)")
    case Nil
    then show ?thesis by simp
  next
    case (Cons t ts)
    with assms have "rk (frm (transitions h t)) < rk s" by blast
    with Suc.prems have "rk (frm (transitions h t)) < n" by simp
    from Suc.IH[OF this] Cons show ?thesis by simp
  qed
qed

lemma mapE_total: "\<forall>x\<in>set xs. \<exists>y. f x = Inr y \<Longrightarrow> \<exists>ys. mapE f xs = Inr ys"
  by (induction xs) (auto split: sum.splits)

lemma preorder_total:
  assumes "\<forall>x t. t \<in> set (out (states h x)) \<longrightarrow> rk (to (transitions h t)) < rk x"
  shows "rk s < n \<Longrightarrow> \<exists>vs. preorder n h s = Inr vs"
proof (induction n arbitrary: s)
  case 0
  then show ?case by simp
next
  case (Suc n)
  have "\<forall>t\<in>set (out (states h s)). \<exists>vs. preorder n h (to (transitions h t)) = Inr vs"
  proof
    fix t assume "t \<in> set (out (states h s))"
    with assms have "rk (to (transitions h t)) < rk s" by blast
    with Suc.prems have "rk (to (transitions h t)) < n" by simp
    then show "\<exists>vs. preorder n h (to (transitions h t)) = Inr vs" by (rule Suc.IH)
  qed
  from mapE_total[OF this] show ?case by (auto simp: bindE_def)
qed

lemma preorder_hd: "preorder n h s = Inr vs \<Longrightarrow> vs \<noteq> [] \<and> hd vs = s"
  by (cases n) (auto simp: bindE_def split: sum.splits)

lemma Build_preorder:
  "Build n h s =
     bindE (root n h s) (\<lambda>r. bindE (preorder n h r) (\<lambda>vs.
       Inr (set_ids h (number_from (ids_of h) 0 vs), r)))"
  using assignIds_preorder[of n h "ids_of h" _ 0]
  by (simp add: Build_def set_ids_same bindE_def split: sum.splits)

text \<open>
  Claim C8. Let the store be acyclic along first inbound transitions and along outbound
  transitions (a rank decreases along each), and let the fuel exceed the ranks. Then
  \<open>Build\<close> returns. The state it returns is the root: it is reached from the given
  state by walking backward along first inbound transitions, and it has no inbound
  transition. The identifiers are those of the depth-first preorder walk from the root
  along outbound transitions, the count starting at 1 at the root and growing by one
  with every visit: the store returned is the given one with the visits numbered from 0
  by \<open>number_from\<close>, so a state whose last visit is the \<open>i\<close>-th (from 0) holds
  \<open>i + 1\<close>, and a state never visited keeps its identifier.
\<close>

theorem Build_root_preorder:
  assumes "\<forall>x t ts. ins (states h x) = t # ts \<longrightarrow> rin (frm (transitions h t)) < rin x"
    and "\<forall>x t. t \<in> set (out (states h x)) \<longrightarrow> rout (to (transitions h t)) < rout x"
    and "rin s < n" and "\<forall>x. rout x < n"
  shows "\<exists>h' r vs.
           Build n h s = Inr (h', r) \<and>
           (\<exists>k. r = (parent h ^^ k) s) \<and> ins (states h r) = [] \<and>
           preorder n h r = Inr vs \<and> hd vs = r \<and>
           h' = set_ids h (number_from (ids_of h) 0 vs) \<and>
           (\<forall>i<length vs. (\<forall>j. i < j \<and> j < length vs \<longrightarrow> vs ! j \<noteq> vs ! i) \<longrightarrow>
                ID (states h' (vs ! i)) = of_nat (i + 1)) \<and>
           (\<forall>x. x \<notin> set vs \<longrightarrow> ID (states h' x) = ID (states h x))"
proof -
  obtain r where r: "root n h s = Inr r"
    using root_total[OF assms(1) assms(3)] by blast
  have "rout r < n" using assms(4) by simp
  then obtain vs where vs: "preorder n h r = Inr vs"
    using preorder_total[OF assms(2)] by blast
  let ?h' = "set_ids h (number_from (ids_of h) 0 vs)"
  have b: "Build n h s = Inr (?h', r)"
    by (simp add: Build_preorder r vs bindE_def)
  have last: "\<forall>i<length vs. (\<forall>j. i < j \<and> j < length vs \<longrightarrow> vs ! j \<noteq> vs ! i) \<longrightarrow>
                ID (states ?h' (vs ! i)) = of_nat (i + 1)"
    by (simp add: number_from_last)
  have other: "\<forall>x. x \<notin> set vs \<longrightarrow> ID (states ?h' x) = ID (states h x)"
    by (simp add: number_from_notin ids_of_def)
  from root_parent[OF r] preorder_hd[OF vs] b vs last other show ?thesis by blast
qed

lemmas or_defs = OR_state_def addOrEdge_def hasTest_def transitionWithTest_def DO_def empty_heap_def

lemma flow_a_or_b_ins_ranked:
  "\<forall>x t ts. ins (states flow_a_or_b x) = t # ts \<longrightarrow>
     (\<lambda>y. if y \<in> {1, 3, 5} then 1 else (0::nat)) (frm (transitions flow_a_or_b t))
       < (\<lambda>y. if y \<in> {1, 3, 5} then 1 else (0::nat)) x"
  by (simp add: flow_a_or_b_def or_defs model_defs Let_def eval_nat_numeral)

lemma flow_a_or_b_out_ranked:
  "\<forall>x t. t \<in> set (out (states flow_a_or_b x)) \<longrightarrow>
     (\<lambda>y. if y \<in> {0, 2, 4} then 1 else (0::nat)) (to (transitions flow_a_or_b t))
       < (\<lambda>y. if y \<in> {0, 2, 4} then 1 else (0::nat)) x"
  by (simp add: flow_a_or_b_def or_defs model_defs Let_def eval_nat_numeral)

lemma flow_a_or_b_root: "root 2 flow_a_or_b 5 = Inr 4"
  by code_simp

lemma flow_a_or_b_preorder: "preorder 2 flow_a_or_b 4 = Inr [4, 5, 5]"
  by code_simp

theorem Build_root_preorder_witness:
  "\<exists>h'. Build 2 flow_a_or_b 5 = Inr (h', 4) \<and> ins (states flow_a_or_b 4) = [] \<and>
        preorder 2 flow_a_or_b 4 = Inr [4, 5, 5] \<and>
        ID (states h' 4) = 1 \<and> ID (states h' 5) = 3"
proof -
  have f: "(\<lambda>y. if y \<in> {1, 3, 5} then 1 else (0::nat)) 5 < 2"
       "\<forall>x. (\<lambda>y. if y \<in> {0, 2, 4} then 1 else (0::nat)) x < 2"
    by simp_all
  from Build_root_preorder[OF flow_a_or_b_ins_ranked flow_a_or_b_out_ranked f]
  obtain h' r vs where
    b: "Build 2 flow_a_or_b 5 = Inr (h', r)" and
    i: "ins (states flow_a_or_b r) = []" and
    p: "preorder 2 flow_a_or_b r = Inr vs" and
    l: "\<forall>i<length vs. (\<forall>j. i < j \<and> j < length vs \<longrightarrow> vs ! j \<noteq> vs ! i) \<longrightarrow>
                ID (states h' (vs ! i)) = of_nat (i + 1)"
    by blast
  have r: "r = 4" using b flow_a_or_b_root by (auto simp: Build_def bindE_def split: sum.splits)
  have vs: "vs = [4, 5, 5]" using p r flow_a_or_b_preorder by simp
  have "ID (states h' 4) = 1" using l[rule_format, of 0] vs by (simp add: nth_Cons')
  moreover have "ID (states h' 5) = 3" using l[rule_format, of 2] vs by (simp add: nth_Cons')
  ultimately show ?thesis using b i p r vs by auto
qed

subsection \<open>FindByID after Build\<close>

lemma mapE_in_set:
  "mapE f xs = Inr ys \<Longrightarrow> x \<in> set xs \<Longrightarrow> \<exists>y\<in>set ys. f x = Inr y"
  by (induction xs arbitrary: ys) (auto split: sum.splits)

lemma mapE_from_set:
  "mapE f xs = Inr ys \<Longrightarrow> y \<in> set ys \<Longrightarrow> \<exists>x\<in>set xs. f x = Inr y"
  by (induction xs arbitrary: ys) (auto split: sum.splits)

lemma preorder_Suc_Inr:
  "preorder (Suc n) h s = Inr vs \<Longrightarrow>
     \<exists>vss. mapE (\<lambda>t. preorder n h (to (transitions h t))) (out (states h s)) = Inr vss \<and>
            vs = s # concat vss"
  by (auto simp: bindE_def split: sum.splits)

lemma preorder_sound:
  "preorder n h s = Inr vs \<Longrightarrow> x \<in> set vs \<Longrightarrow> (s, x) \<in> (edges h)\<^sup>*"
proof (induction n arbitrary: s vs)
  case 0
  then show ?case by simp
next
  case (Suc n)
  from preorder_Suc_Inr[OF Suc.prems(1)] obtain vss where
    v: "mapE (\<lambda>t. preorder n h (to (transitions h t))) (out (states h s)) = Inr vss"
       "vs = s # concat vss"
    by blast
  show ?case
  proof (cases "x = s")
    case True
    then show ?thesis by simp
  next
    case False
    with Suc.prems(2) v(2) obtain ws where ws: "ws \<in> set vss" "x \<in> set ws" by auto
    from mapE_from_set[OF v(1) ws(1)] obtain t where
      t: "t \<in> set (out (states h s))" "preorder n h (to (transitions h t)) = Inr ws" by blast
    have "(s, to (transitions h t)) \<in> edges h" using t(1) by (auto simp: edges_def)
    moreover have "(to (transitions h t), x) \<in> (edges h)\<^sup>*" using Suc.IH[OF t(2) ws(2)] .
    ultimately show ?thesis by (rule converse_rtrancl_into_rtrancl)
  qed
qed

lemma preorder_complete:
  "(s, x) \<in> (edges h)\<^sup>* \<Longrightarrow> preorder n h s = Inr vs \<Longrightarrow> x \<in> set vs"
proof (induction arbitrary: n vs rule: converse_rtrancl_induct)
  case base
  then show ?case using preorder_hd[of n h x vs] by (cases vs) auto
next
  case (step y z)
  from step.prems obtain m where n: "n = Suc m" by (cases n) auto
  from preorder_Suc_Inr[OF step.prems[unfolded n]] obtain vss where
    v: "mapE (\<lambda>t. preorder m h (to (transitions h t))) (out (states h y)) = Inr vss"
       "vs = y # concat vss"
    by blast
  from step.hyps(1) obtain t where t: "t \<in> set (out (states h y))" "z = to (transitions h t)"
    by (auto simp: edges_def)
  from mapE_in_set[OF v(1) t(1)] obtain ws where
    ws: "ws \<in> set vss" "preorder m h z = Inr ws" using t(2) by auto
  from step.IH[OF ws(2)] ws(1) v(2) show ?case by auto
qed

lemma preorder_reachable:
  "preorder n h s = Inr vs \<Longrightarrow> set vs = {x. (s, x) \<in> (edges h)\<^sup>*}"
  using preorder_sound preorder_complete by blast

lemma Build_Inr:
  "Build n h s = Inr (h', r) \<Longrightarrow>
   \<exists>vs. root n h s = Inr r \<and> preorder n h r = Inr vs \<and>
        h' = set_ids h (number_from (ids_of h) 0 vs)"
  by (auto simp: Build_preorder bindE_def split: sum.splits)

lemma of_nat_inj64:
  "a < 2 ^ 64 \<Longrightarrow> b < 2 ^ 64 \<Longrightarrow> (of_nat a :: 64 word) = of_nat b \<Longrightarrow> a = b"
proof -
  assume a: "a < 2 ^ 64" and b: "b < 2 ^ 64" and e: "(of_nat a :: 64 word) = of_nat b"
  have ua: "unat (of_nat a :: 64 word) = a" using a by (simp add: unat_of_nat)
  have ub: "unat (of_nat b :: 64 word) = b" using b by (simp add: unat_of_nat)
  from e have "unat (of_nat a :: 64 word) = unat (of_nat b :: 64 word)" by (rule arg_cong)
  then show "a = b" by (simp only: ua ub)
qed

lemma of_nat_nonzero64: "0 < a \<Longrightarrow> a < 2 ^ 64 \<Longrightarrow> (of_nat a :: 64 word) \<noteq> 0"
proof
  assume a: "0 < a" "a < 2 ^ 64" and z: "(of_nat a :: 64 word) = 0"
  have "(of_nat a :: 64 word) = of_nat 0" using z by simp
  from of_nat_inj64[OF a(2) _ this] a(1) show False by simp
qed

lemma sint_of_nat64: "a < 2 ^ 63 \<Longrightarrow> sint (of_nat a :: 64 word) = int a"
  by (simp add: signed_of_nat signed_take_bit_int_eq_self)


lemma edges_set_ids [simp]: "edges (set_ids h f) = edges h"
  by (simp add: edges_def)

lemma number_from_visited:
  assumes "x \<in> set vs"
  shows "\<exists>i<length vs. vs ! i = x \<and> (\<forall>j. i < j \<and> j < length vs \<longrightarrow> vs ! j \<noteq> x) \<and>
           number_from f k vs x = k + of_nat (Suc i)"
proof -
  from last_visit_ex[OF assms] obtain i where
    i: "i < length vs" "vs ! i = x" "\<forall>j. i < j \<and> j < length vs \<longrightarrow> vs ! j \<noteq> x" by blast
  from i have "\<forall>j. i < j \<and> j < length vs \<longrightarrow> vs ! j \<noteq> vs ! i" by simp
  from number_from_last[OF i(1) this, of f k] i show ?thesis by auto
qed

lemma find_unique:
  "x \<in> set vs \<Longrightarrow> P x \<Longrightarrow> \<forall>y\<in>set vs. P y \<longrightarrow> y = x \<Longrightarrow> find P vs = Some x"
proof (induction vs)
  case Nil
  then show ?case by simp
next
  case (Cons v vs)
  show ?case
  proof (cases "P v")
    case True
    with Cons.prems(3) have "v = x" by simp
    with True show ?thesis by simp
  next
    case False
    with Cons.prems(1,2) have "x \<in> set vs" by auto
    moreover have "\<forall>y\<in>set vs. P y \<longrightarrow> y = x" using Cons.prems(3) by simp
    ultimately have "find P vs = Some x" using Cons.prems(2) by (intro Cons.IH)
    with False show ?thesis by simp
  qed
qed

lemma find_none: "\<forall>y\<in>set vs. \<not> P y \<Longrightarrow> find P vs = None"
  by (induction vs) auto

lemma FindByID_built:
  assumes "Build n h s = Inr (h', r)" and "preorder n h r = Inr vs"
  shows "FindByID n h' r c = Inr (find (\<lambda>y. number_from (ids_of h) 0 vs y = c) vs)"
proof -
  from Build_Inr[OF assms(1)] assms(2) have h': "h' = set_ids h (number_from (ids_of h) 0 vs)"
    by auto
  have "preorder n h' r = Inr vs" using assms(2) by (simp add: h')
  from FindByID_preorder[OF this, of c] show ?thesis by (simp add: h')
qed

lemma diamond_ids:
  assumes b: "Build n h s = Inr (h', r)" and p: "preorder n h r = Inr vs"
    and len: "length vs < 2 ^ 64"
    and j: "j < length vs" "vs ! j = x" "\<forall>j'. j < j' \<and> j' < length vs \<longrightarrow> vs ! j' \<noteq> x"
  shows "ID (states h' x) = of_nat (Suc j) \<and>
         FindByID n h' r (of_nat (Suc j)) = Inr (Some x) \<and>
         (\<forall>i<j. vs ! i = x \<longrightarrow> FindByID n h' r (of_nat (Suc i)) = Inr None)"
proof -
  let ?g = "number_from (ids_of h) 0 vs"
  from Build_Inr[OF b] p have h': "h' = set_ids h ?g" by auto
  have gx: "?g x = of_nat (Suc j)"
    using number_from_last[OF j(1), of "ids_of h" 0] j(2,3) by simp
  have key: "a = i" if y: "y \<in> set vs" and i: "i < length vs" and g: "?g y = of_nat (Suc i)"
    and a: "a < length vs" "?g y = of_nat (Suc a)" for y i a
  proof -
    have "(of_nat (Suc a) :: 64 word) = of_nat (Suc i)" by (rule trans[OF a(2)[symmetric] g])
    moreover have "Suc a < 2 ^ 64" by (rule le_less_trans[OF Suc_leI[OF a(1)] len])
    moreover have "Suc i < 2 ^ 64" by (rule le_less_trans[OF Suc_leI[OF i] len])
    ultimately have "Suc a = Suc i" by (rule of_nat_inj64[rotated 2])
    then show ?thesis by (simp only: Suc_inject)
  qed
  have uniq: "y = vs ! i" if y: "y \<in> set vs" and i: "i < length vs" and g: "?g y = of_nat (Suc i)" for y i
  proof -
    from number_from_visited[OF y, of "ids_of h" 0] obtain a where
      a: "a < length vs" "vs ! a = y" "?g y = of_nat (Suc a)" by auto
    from key[OF y i g a(1,3)] a(2) show ?thesis by simp
  qed
  have last: "\<forall>j'. i < j' \<and> j' < length vs \<longrightarrow> vs ! j' \<noteq> y"
    if y: "y \<in> set vs" and i: "i < length vs" and g: "?g y = of_nat (Suc i)" for y i
  proof -
    from number_from_visited[OF y, of "ids_of h" 0] obtain a where
      a: "a < length vs" "\<forall>j. a < j \<and> j < length vs \<longrightarrow> vs ! j \<noteq> y" "?g y = of_nat (Suc a)" by auto
    from key[OF y i g a(1,3)] a(2) show ?thesis by simp
  qed
  have x_in: "x \<in> set vs" using j(1,2) by (auto simp: in_set_conv_nth)
  have f1: "find (\<lambda>y. ?g y = of_nat (Suc j)) vs = Some x"
  proof (rule find_unique[where P = "\<lambda>y. ?g y = of_nat (Suc j)", OF x_in gx], intro ballI impI)
    fix y assume "y \<in> set vs" "?g y = of_nat (Suc j)"
    from uniq[OF this(1) j(1) this(2)] j(2) show "y = x" by simp
  qed
  have f2: "find (\<lambda>y. ?g y = of_nat (Suc i)) vs = None" if i: "i < j" "vs ! i = x" for i
  proof (rule find_none, intro ballI notI)
    fix y assume y: "y \<in> set vs" "?g y = of_nat (Suc i)"
    have il: "i < length vs" using i(1) j(1) by simp
    from uniq[OF y(1) il y(2)] i(2) have "y = x" by simp
    with last[OF y(1) il y(2)] i(1) j(1,2) show False by blast
  qed
  have "ID (states h' x) = of_nat (Suc j)" using gx by (simp only: h' set_ids_simps)
  moreover have "FindByID n h' r (of_nat (Suc j)) = Inr (Some x)"
    by (simp only: FindByID_built[OF b p] f1)
  moreover have "\<forall>i<j. vs ! i = x \<longrightarrow> FindByID n h' r (of_nat (Suc i)) = Inr None"
  proof (intro allI impI)
    fix i assume "i < j" "vs ! i = x"
    from f2[OF this] show "FindByID n h' r (of_nat (Suc i)) = Inr None"
      by (simp only: FindByID_built[OF b p])
  qed
  ultimately show ?thesis by (intro conjI)
qed

text \<open>
  Claim C10. A state whose identifier is still 0 is what \<open>FindByID\<close> returns for the
  identifier 0, since the receiver's own identifier is compared first. After \<open>Build\<close>
  the states reachable from the root are the states of the preorder walk, and, the walk
  being shorter than \<open>2 ^ 63\<close> visits (the identifiers do not wrap around), each of
  them has an identifier of at least 1 and \<open>FindByID\<close> on the root answers nil for 0.
\<close>

theorem FindByID_zero:
  "(ID (states h s) = 0 \<longrightarrow> FindByID (Suc n) h s 0 = Inr (Some s)) \<and>
   (Build n h s = Inr (h', r) \<longrightarrow>
      (\<exists>vs. preorder n h r = Inr vs \<and> set vs = {x. (r, x) \<in> (edges h')\<^sup>*} \<and>
         (length vs < 2 ^ 63 \<longrightarrow>
            (\<forall>x\<in>set vs. 1 \<le> sint (ID (states h' x))) \<and> FindByID n h' r 0 = Inr None)))"
proof (intro conjI impI)
  assume "ID (states h s) = 0"
  then show "FindByID (Suc n) h s 0 = Inr (Some s)" by simp
next
  assume b: "Build n h s = Inr (h', r)"
  from Build_Inr[OF b] obtain vs where
    p: "preorder n h r = Inr vs" and h': "h' = set_ids h (number_from (ids_of h) 0 vs)" by blast
  let ?g = "number_from (ids_of h) 0 vs"
  have reach: "set vs = {x. (r, x) \<in> (edges h')\<^sup>*}"
    using preorder_reachable[OF p] by (simp add: h')
  have pos: "1 \<le> sint (ID (states h' x))" if len: "length vs < 2 ^ 63" and x: "x \<in> set vs" for x
  proof -
    from number_from_visited[OF x, of "ids_of h" 0] obtain i where
      i: "i < length vs" "?g x = of_nat (Suc i)" by auto
    have "Suc i < 2 ^ 63" by (rule le_less_trans[OF Suc_leI[OF i(1)] len])
    from sint_of_nat64[OF this] have "sint (?g x) = int (Suc i)" by (simp only: i(2))
    then have "1 \<le> sint (?g x)" by simp
    then show ?thesis by (simp only: h' set_ids_simps)
  qed
  have none: "FindByID n h' r 0 = Inr None" if len: "length vs < 2 ^ 63"
  proof -
    have "\<forall>y\<in>set vs. \<not> ?g y = 0"
    proof (intro ballI notI)
      fix y assume y: "y \<in> set vs" "?g y = 0"
      from pos[OF len y(1)] have "1 \<le> sint (?g y)" by (simp only: h' set_ids_simps)
      then have "(1::int) \<le> sint (0 :: 64 word)" by (simp only: y(2))
      then show False by simp
    qed
    from find_none[OF this] show ?thesis by (simp add: FindByID_built[OF b p])
  qed
  show "\<exists>vs. preorder n h r = Inr vs \<and> set vs = {x. (r, x) \<in> (edges h')\<^sup>*} \<and>
         (length vs < 2 ^ 63 \<longrightarrow>
            (\<forall>x\<in>set vs. 1 \<le> sint (ID (states h' x))) \<and> FindByID n h' r 0 = Inr None)"
  proof (intro exI[of _ vs] conjI impI ballI)
    show "preorder n h r = Inr vs" by (rule p)
    show "set vs = {x. (r, x) \<in> (edges h')\<^sup>*}" by (rule reach)
    show "1 \<le> sint (ID (states h' x))" if "length vs < 2 ^ 63" "x \<in> set vs" for x
      using that by (rule pos)
    show "FindByID n h' r 0 = Inr None" if "length vs < 2 ^ 63"
      using that by (rule none)
  qed
qed


lemma flow_a_or_b_ID: "ID (states flow_a_or_b 4) = 0"
  by code_simp

theorem FindByID_zero_witness:
  "FindByID 1 flow_a_or_b 4 0 = Inr (Some 4) \<and>
   (\<exists>h'. Build 2 flow_a_or_b 5 = Inr (h', 4) \<and> FindByID 2 h' 4 0 = Inr None \<and>
         1 \<le> sint (ID (states h' 5)))"
proof -
  obtain h' where b: "Build 2 flow_a_or_b 5 = Inr (h', 4)"
    by (simp add: Build_preorder flow_a_or_b_root flow_a_or_b_preorder bindE_def)
  have one: "FindByID 1 flow_a_or_b 4 0 = Inr (Some 4)"
    using FindByID_zero[of flow_a_or_b 4 0 h' 4, THEN conjunct1] flow_a_or_b_ID by simp
  from FindByID_zero[of flow_a_or_b 5 2 h' 4, THEN conjunct2, rule_format, OF b]
  obtain vs where vs: "preorder 2 flow_a_or_b 4 = Inr vs"
    "length vs < 2 ^ 63 \<longrightarrow>
       (\<forall>x\<in>set vs. 1 \<le> sint (ID (states h' x))) \<and> FindByID 2 h' 4 0 = Inr None"
    by blast
  have v: "vs = [4, 5, 5]" using vs(1) flow_a_or_b_preorder by simp
  have "length vs < 2 ^ 63" by (simp add: v)
  with vs(2) have "(\<forall>x\<in>set vs. 1 \<le> sint (ID (states h' x))) \<and> FindByID 2 h' 4 0 = Inr None"
    by (rule mp)
  then have "FindByID 2 h' 4 0 = Inr None" "1 \<le> sint (ID (states h' 5))"
    by (simp_all add: v)
  with one b show ?thesis by blast
qed

subsection \<open>A state reached by several paths\<close>

lemma mapE_map: "mapE f (map g xs) = mapE (\<lambda>x. f (g x)) xs"
  by (induction xs) (auto split: sum.splits)

lemma mapE_nth: "mapE f xs = mapE (\<lambda>i. f (xs ! i)) [0..<length xs]"
proof -
  have "mapE f xs = mapE f (map ((!) xs) [0..<length xs])" by (simp only: map_nth)
  also have "\<dots> = mapE (\<lambda>i. f (xs ! i)) [0..<length xs]" by (rule mapE_map)
  finally show ?thesis .
qed

lemma paths_children:
  assumes IH: "\<And>c vs. preorder n h c = Inr vs \<Longrightarrow>
                 \<exists>ps. paths n h c = Inr ps \<and> map (endpoint h c) ps = map Some vs \<and>
                      distinct ps \<and> set ps = {p. endpoint h c p \<noteq> None}"
  shows "distinct js \<Longrightarrow> \<forall>i\<in>set js. i < length (out (states h s)) \<Longrightarrow>
         mapE (\<lambda>i. preorder n h (to (transitions h (out (states h s) ! i)))) js = Inr vss \<Longrightarrow>
         \<exists>pss. mapE (\<lambda>i. bindE (paths n h (to (transitions h (out (states h s) ! i))))
                              (\<lambda>ps. Inr (map ((#) i) ps))) js = Inr pss \<and>
               map (endpoint h s) (concat pss) = map Some (concat vss) \<and>
               distinct (concat pss) \<and>
               set (concat pss) =
                 {i # p | i p. i \<in> set js \<and>
                    endpoint h (to (transitions h (out (states h s) ! i))) p \<noteq> None}"
proof (induction js arbitrary: vss)
  case Nil
  then show ?case by simp
next
  case (Cons i js)
  let ?c = "\<lambda>i. to (transitions h (out (states h s) ! i))"
  from Cons.prems(3) obtain vs vss' where
    v: "preorder n h (?c i) = Inr vs" "mapE (\<lambda>i. preorder n h (?c i)) js = Inr vss'"
       "vss = vs # vss'"
    by (auto split: sum.splits)
  from IH[OF v(1)] obtain ps where
    ps: "paths n h (?c i) = Inr ps" "map (endpoint h (?c i)) ps = map Some vs"
        "distinct ps" "set ps = {p. endpoint h (?c i) p \<noteq> None}"
    by blast
  have dj: "distinct js" "\<forall>i\<in>set js. i < length (out (states h s))" "i \<notin> set js"
    "i < length (out (states h s))"
    using Cons.prems(1,2) by auto
  from Cons.IH[OF dj(1,2) v(2)] obtain pss' where
    pss': "mapE (\<lambda>i. bindE (paths n h (?c i)) (\<lambda>ps. Inr (map ((#) i) ps))) js = Inr pss'"
          "map (endpoint h s) (concat pss') = map Some (concat vss')"
          "distinct (concat pss')"
          "set (concat pss') = {i # p | i p. i \<in> set js \<and> endpoint h (?c i) p \<noteq> None}"
    by blast
  let ?pss = "map ((#) i) ps # pss'"
  have m: "mapE (\<lambda>i. bindE (paths n h (?c i)) (\<lambda>ps. Inr (map ((#) i) ps))) (i # js) = Inr ?pss"
    using pss'(1) by (simp add: ps(1) bindE_def)
  have e: "map (endpoint h s) (map ((#) i) ps) = map Some vs"
    using ps(2) dj(4) by (simp add: comp_def)
  have e2: "map (endpoint h s) (concat ?pss) = map Some (concat vss)"
    using e pss'(2) v(3) by simp
  have d1: "distinct (map ((#) i) ps)" using ps(3) by (simp add: distinct_map inj_on_def)
  have d2: "set (map ((#) i) ps) \<inter> set (concat pss') = {}"
  proof (rule ccontr)
    assume "set (map ((#) i) ps) \<inter> set (concat pss') \<noteq> {}"
    then obtain q where q: "q \<in> set (map ((#) i) ps)" "q \<in> set (concat pss')" by blast
    from q(2) have "\<exists>i' p. q = i' # p \<and> i' \<in> set js" unfolding pss'(4) by blast
    moreover from q(1) have "\<exists>p. q = i # p" by auto
    ultimately show False using dj(3) by auto
  qed
  have d: "distinct (concat ?pss)" using d1 d2 pss'(3) by simp
  have "set (concat ?pss) = set (map ((#) i) ps) \<union> set (concat pss')" by simp
  also have "\<dots> = {i' # p | i' p. i' \<in> set (i # js) \<and> endpoint h (?c i') p \<noteq> None}"
    unfolding pss'(4) using ps(4) by auto
  finally have st: "set (concat ?pss) = {i' # p | i' p. i' \<in> set (i # js) \<and> endpoint h (?c i') p \<noteq> None}" .
  from m e2 d st show ?case by blast
qed

lemma endpoint_paths_set:
  "{p. endpoint h s p \<noteq> None} =
     insert [] {i # p | i p. i \<in> set [0..<length (out (states h s))] \<and>
                  endpoint h (to (transitions h (out (states h s) ! i))) p \<noteq> None}"
proof (intro set_eqI iffI)
  fix p assume "p \<in> {p. endpoint h s p \<noteq> None}"
  then show "p \<in> insert [] {i # p | i p. i \<in> set [0..<length (out (states h s))] \<and>
                  endpoint h (to (transitions h (out (states h s) ! i))) p \<noteq> None}"
    by (cases p) (auto split: if_splits)
next
  fix p assume "p \<in> insert [] {i # p | i p. i \<in> set [0..<length (out (states h s))] \<and>
                  endpoint h (to (transitions h (out (states h s) ! i))) p \<noteq> None}"
  then show "p \<in> {p. endpoint h s p \<noteq> None}" by auto
qed

lemma paths_preorder:
  "preorder n h s = Inr vs \<Longrightarrow>
   \<exists>ps. paths n h s = Inr ps \<and> map (endpoint h s) ps = map Some vs \<and>
        distinct ps \<and> set ps = {p. endpoint h s p \<noteq> None}"
proof (induction n arbitrary: s vs)
  case 0
  then show ?case by simp
next
  case (Suc n)
  let ?c = "\<lambda>i. to (transitions h (out (states h s) ! i))"
  let ?js = "[0..<length (out (states h s))]"
  from preorder_Suc_Inr[OF Suc.prems] obtain vss where
    v: "mapE (\<lambda>t. preorder n h (to (transitions h t))) (out (states h s)) = Inr vss"
       "vs = s # concat vss"
    by blast
  have v': "mapE (\<lambda>i. preorder n h (?c i)) ?js = Inr vss"
    using v(1) mapE_nth[of "\<lambda>t. preorder n h (to (transitions h t))" "out (states h s)"] by simp
  have "distinct ?js" "\<forall>i\<in>set ?js. i < length (out (states h s))" by simp_all
  from paths_children[of n h, OF Suc.IH this v'] obtain pss where
    pss: "mapE (\<lambda>i. bindE (paths n h (?c i)) (\<lambda>ps. Inr (map ((#) i) ps))) ?js = Inr pss"
         "map (endpoint h s) (concat pss) = map Some (concat vss)"
         "distinct (concat pss)"
         "set (concat pss) = {i # p | i p. i \<in> set ?js \<and> endpoint h (?c i) p \<noteq> None}"
    by blast
  have p: "paths (Suc n) h s = Inr ([] # concat pss)" using pss(1) by (simp add: bindE_def)
  have e: "map (endpoint h s) ([] # concat pss) = map Some vs" using pss(2) v(2) by simp
  have "[] \<notin> set (concat pss)" unfolding pss(4) by blast
  with pss(3) have d: "distinct ([] # concat pss)" by (simp only: distinct.simps) simp
  have st: "set ([] # concat pss) = {p. endpoint h s p \<noteq> None}"
    by (simp only: endpoint_paths_set[of h s] pss(4) list.set)
  from p e d st show ?case by blast
qed


lemma two_paths_two_visits:
  assumes "map f ps = map Some vs" and "distinct ps" and "p \<in> set ps" and "q \<in> set ps"
    and "p \<noteq> q" and "f p = Some x" and "f q = Some x"
  shows "\<exists>i j. i < j \<and> j < length vs \<and> vs ! i = x \<and> vs ! j = x"
proof -
  have len: "length ps = length vs" using assms(1) by (metis length_map)
  from assms(3) obtain a where a: "a < length ps" "ps ! a = p" by (auto simp: in_set_conv_nth)
  from assms(4) obtain b where b: "b < length ps" "ps ! b = q" by (auto simp: in_set_conv_nth)
  have nth: "f (ps ! k) = Some (vs ! k)" if "k < length ps" for k
  proof -
    have "map f ps ! k = map Some vs ! k" by (simp only: assms(1))
    then show ?thesis using that len by simp
  qed
  have va: "vs ! a = x" using nth[OF a(1)] a(2) assms(6) by simp
  have vb: "vs ! b = x" using nth[OF b(1)] b(2) assms(7) by simp
  have "a \<noteq> b" using a(2) b(2) assms(5) by auto
  then consider "a < b" | "b < a" by linarith
  then show ?thesis
  proof cases
    case 1
    with va vb b(1) len show ?thesis by auto
  next
    case 2
    with va vb a(1) len show ?thesis by auto
  qed
qed

lemma number_from_visit:
  "i < length vs \<Longrightarrow> number_from f k (take (Suc i) vs) (vs ! i) = k + of_nat (Suc i)"
proof -
  assume i: "i < length vs"
  have l: "i < length (take (Suc i) vs)" using i by simp
  have "\<forall>j. i < j \<and> j < length (take (Suc i) vs) \<longrightarrow> take (Suc i) vs ! j \<noteq> take (Suc i) vs ! i"
    by simp
  from number_from_last[OF l this, of f k] show ?thesis by simp
qed

text \<open>
  Claim C4. Let \<open>Build\<close> return the root \<open>r\<close>, and let two different paths lead from
  \<open>r\<close> to the state \<open>x\<close>. The walk of \<open>assignIds\<close> visits a state once for each
  path to it: its visits \<open>vs\<close> are the endpoints of the paths \<open>ps\<close> from the root, all
  of them, each once, in order. When the walk is shorter than \<open>2 ^ 64\<close> visits, \<open>x\<close> is
  visited at a position \<open>i\<close> and last at a later position \<open>j\<close>; the visit at \<open>i\<close> wrote
  \<open>i + 1\<close>; after \<open>Build\<close> the state holds \<open>j + 1\<close>, \<open>FindByID\<close> on the root finds
  \<open>x\<close> for \<open>j + 1\<close>, and it finds nothing for the identifier written by any earlier
  visit of \<open>x\<close>.
\<close>

theorem diamond_last_id:
  assumes "Build n h s = Inr (h', r)" and "p \<noteq> q"
    and "endpoint h r p = Some x" and "endpoint h r q = Some x"
  shows "\<exists>vs ps. preorder n h r = Inr vs \<and> paths n h r = Inr ps \<and>
           map (endpoint h r) ps = map Some vs \<and> distinct ps \<and>
           set ps = {p. endpoint h r p \<noteq> None} \<and>
           (length vs < 2 ^ 64 \<longrightarrow>
              (\<exists>i j. i < j \<and> j < length vs \<and> vs ! i = x \<and> vs ! j = x \<and>
                 (\<forall>j'. j < j' \<and> j' < length vs \<longrightarrow> vs ! j' \<noteq> x) \<and>
                 number_from (ids_of h) 0 (take (Suc i) vs) x = of_nat (Suc i) \<and>
                 ID (states h' x) = of_nat (Suc j) \<and>
                 FindByID n h' r (of_nat (Suc j)) = Inr (Some x) \<and>
                 (\<forall>i'<j. vs ! i' = x \<longrightarrow> FindByID n h' r (of_nat (Suc i')) = Inr None)))"
proof -
  from Build_Inr[OF assms(1)] obtain vs where vs: "preorder n h r = Inr vs" by blast
  from paths_preorder[OF vs] obtain ps where
    ps: "paths n h r = Inr ps" "map (endpoint h r) ps = map Some vs" "distinct ps"
        "set ps = {p. endpoint h r p \<noteq> None}"
    by blast
  have pin: "p \<in> set ps" "q \<in> set ps" using assms(3,4) by (simp_all add: ps(4))
  from two_paths_two_visits[OF ps(2,3) pin assms(2,3,4)] obtain a b where
    ab: "a < b" "b < length vs" "vs ! a = x" "vs ! b = x" by blast
  have "x \<in> set vs" using ab(2,4) by (auto simp: in_set_conv_nth)
  from last_visit_ex[OF this] obtain j where
    j: "j < length vs" "vs ! j = x" "\<forall>j'. j < j' \<and> j' < length vs \<longrightarrow> vs ! j' \<noteq> x" by blast
  have "\<not> j < b" using j(3) ab(2,4) by blast
  then have aj: "a < j" using ab(1) by simp
  have al: "a < length vs" using aj j(1) by simp
  have na: "number_from (ids_of h) 0 (take (Suc a) vs) x = of_nat (Suc a)"
    using number_from_visit[OF al, of "ids_of h" 0] ab(3) by simp
  have main: "\<exists>i j. i < j \<and> j < length vs \<and> vs ! i = x \<and> vs ! j = x \<and>
                 (\<forall>j'. j < j' \<and> j' < length vs \<longrightarrow> vs ! j' \<noteq> x) \<and>
                 number_from (ids_of h) 0 (take (Suc i) vs) x = of_nat (Suc i) \<and>
                 ID (states h' x) = of_nat (Suc j) \<and>
                 FindByID n h' r (of_nat (Suc j)) = Inr (Some x) \<and>
                 (\<forall>i'<j. vs ! i' = x \<longrightarrow> FindByID n h' r (of_nat (Suc i')) = Inr None)"
    if len: "length vs < 2 ^ 64"
  proof -
    note d = diamond_ids[OF assms(1) vs len j]
    show ?thesis
      by (rule exI[of _ a], rule exI[of _ j]) (intro conjI aj j ab(3) na d[THEN conjunct1]
          d[THEN conjunct2, THEN conjunct1] d[THEN conjunct2, THEN conjunct2])
  qed
  show ?thesis
    by (rule exI[of _ vs], rule exI[of _ ps]) (intro conjI impI vs ps main)
qed


lemma flow_a_or_b_paths:
  "endpoint flow_a_or_b 4 [0] = Some 5" "endpoint flow_a_or_b 4 [1] = Some 5"
  by code_simp+

theorem diamond_last_id_witness:
  "\<exists>h'. Build 2 flow_a_or_b 5 = Inr (h', 4) \<and>
        endpoint flow_a_or_b 4 [0] = Some 5 \<and> endpoint flow_a_or_b 4 [1] = Some 5 \<and>
        ID (states h' 5) = 3 \<and> FindByID 2 h' 4 3 = Inr (Some 5) \<and> FindByID 2 h' 4 2 = Inr None"
proof -
  obtain h' where b: "Build 2 flow_a_or_b 5 = Inr (h', 4)"
    by (simp add: Build_preorder flow_a_or_b_root flow_a_or_b_preorder bindE_def)
  have ne: "[0::nat] \<noteq> [1]" by simp
  from diamond_last_id[OF b ne flow_a_or_b_paths] obtain vs where
    vs: "preorder 2 flow_a_or_b 4 = Inr vs" and
    m: "length vs < 2 ^ 64 \<longrightarrow>
        (\<exists>i j. i < j \<and> j < length vs \<and> vs ! i = 5 \<and> vs ! j = 5 \<and>
           (\<forall>j'. j < j' \<and> j' < length vs \<longrightarrow> vs ! j' \<noteq> 5) \<and>
           number_from (ids_of flow_a_or_b) 0 (take (Suc i) vs) 5 = of_nat (Suc i) \<and>
           ID (states h' 5) = of_nat (Suc j) \<and>
           FindByID 2 h' 4 (of_nat (Suc j)) = Inr (Some 5) \<and>
           (\<forall>i'<j. vs ! i' = 5 \<longrightarrow> FindByID 2 h' 4 (of_nat (Suc i')) = Inr None))"
    by blast
  have v: "vs = [4, 5, 5]" using vs flow_a_or_b_preorder by simp
  have "length vs < 2 ^ 64" by (simp add: v)
  with m obtain i j where
    ij: "i < j" "j < length vs" "vs ! j = 5" "\<forall>j'. j < j' \<and> j' < length vs \<longrightarrow> vs ! j' \<noteq> 5"
        "ID (states h' 5) = of_nat (Suc j)" "FindByID 2 h' 4 (of_nat (Suc j)) = Inr (Some 5)"
        "\<forall>i'<j. vs ! i' = 5 \<longrightarrow> FindByID 2 h' 4 (of_nat (Suc i')) = Inr None"
    by blast
  have j2: "j = 2"
  proof -
    have "j < 3" using ij(2) v by simp
    then consider "j = 0" | "j = 1" | "j = 2" by linarith
    then show ?thesis
    proof cases
      case 1
      with ij(1) show ?thesis by simp
    next
      case 2
      with ij(4)[rule_format, of 2] v show ?thesis by simp
    next
      case 3
      then show ?thesis .
    qed
  qed
  have "FindByID 2 h' 4 (of_nat (Suc 1)) = Inr None"
    using ij(7)[rule_format, of 1] j2 v by simp
  then have "FindByID 2 h' 4 2 = Inr None" by simp
  moreover have "ID (states h' 5) = 3" "FindByID 2 h' 4 3 = Inr (Some 5)"
    using ij(5,6) j2 by simp_all
  ultimately show ?thesis using b flow_a_or_b_paths by blast
qed

subsection \<open>THEN copies its operands\<close>

lemma frame_refl: "frame N T h h"
  by (simp add: frame_def)

lemma frame_trans: "frame N T h h1 \<Longrightarrow> frame N T h1 h2 \<Longrightarrow> frame N T h h2"
  by (simp add: frame_def)

lemma copies_new_mono: "copies_new N h m \<Longrightarrow> nstates h \<le> nstates h' \<Longrightarrow> copies_new N h' m"
  unfolding copies_new_def by (meson less_le_trans)

lemma state_new_mono:
  "state_new N T h x \<Longrightarrow> states h' x = states h x \<Longrightarrow> nstates h \<le> nstates h' \<Longrightarrow>
   ntrans h \<le> ntrans h' \<Longrightarrow> state_new N T h' x"
  unfolding state_new_def by (simp) (meson less_le_trans)

lemma trans_new_mono:
  "trans_new N h t \<Longrightarrow> transitions h' t = transitions h t \<Longrightarrow> nstates h \<le> nstates h' \<Longrightarrow>
   trans_new N h' t"
  unfolding trans_new_def by simp

text \<open>What the primitive operations change.\<close>

lemma new_state_simps [simp]:
  "states (fst (new_state h)) x = (if x = nstates h then zero_state else states h x)"
  "transitions (fst (new_state h)) = transitions h"
  "nstates (fst (new_state h)) = Suc (nstates h)"
  "ntrans (fst (new_state h)) = ntrans h"
  "snd (new_state h) = nstates h"
  by (simp_all add: new_state_def)

lemma new_trans_simps [simp]:
  "states (fst (new_trans h tr)) = states h"
  "transitions (fst (new_trans h tr)) t = (if t = ntrans h then tr else transitions h t)"
  "nstates (fst (new_trans h tr)) = nstates h"
  "ntrans (fst (new_trans h tr)) = Suc (ntrans h)"
  "snd (new_trans h tr) = ntrans h"
  by (simp_all add: new_trans_def)

lemma upd_state_simps [simp]:
  "states (upd_state h s f) x = (if x = s then f (states h s) else states h x)"
  "transitions (upd_state h s f) = transitions h"
  "nstates (upd_state h s f) = nstates h"
  "ntrans (upd_state h s f) = ntrans h"
  by (simp_all add: upd_state_def)

lemma upd_trans_simps [simp]:
  "states (upd_trans h t f) = states h"
  "transitions (upd_trans h t f) u = (if u = t then f (transitions h t) else transitions h u)"
  "nstates (upd_trans h t f) = nstates h"
  "ntrans (upd_trans h t f) = ntrans h"
  by (simp_all add: upd_trans_def)

lemma addOut_simps [simp]:
  "states (addOut h c t) x = (if x = c then (states h c)\<lparr>out := out (states h c) @ [t]\<rparr> else states h x)"
  "transitions (addOut h c t) u = (if u = t then (transitions h t)\<lparr>frm := c\<rparr> else transitions h u)"
  "nstates (addOut h c t) = nstates h"
  "ntrans (addOut h c t) = ntrans h"
  by (simp_all add: addOut_def)

lemma addIn_simps [simp]:
  "states (addIn h c t) x = (if x = c then (states h c)\<lparr>ins := ins (states h c) @ [t]\<rparr> else states h x)"
  "transitions (addIn h c t) u = (if u = t then (transitions h t)\<lparr>to := c\<rparr> else transitions h u)"
  "nstates (addIn h c t) = nstates h"
  "ntrans (addIn h c t) = ntrans h"
  by (simp_all add: addIn_def)

lemma new_state_closed:
  assumes "new_closed N T h"
  shows "new_closed N T (fst (new_state h))"
proof -
  have "state_new N T (fst (new_state h)) x" if "N \<le> x" "x < Suc (nstates h)" for x
  proof (cases "x = nstates h")
    case True
    then show ?thesis by (simp add: state_new_def zero_state_def)
  next
    case False
    with that have "x < nstates h" by simp
    with assms that(1) have "state_new N T h x" by (simp add: new_closed_def)
    then show ?thesis by (rule state_new_mono) (simp_all add: False)
  qed
  moreover have "trans_new N (fst (new_state h)) t" if "T \<le> t" "t < ntrans h" for t
  proof -
    from assms that have "trans_new N h t" by (simp add: new_closed_def)
    then show ?thesis by (rule trans_new_mono) simp_all
  qed
  ultimately show ?thesis using assms by (simp add: new_closed_def)
qed

lemma new_state_frame: "N \<le> nstates h \<Longrightarrow> frame N T h (fst (new_state h))"
  by (simp add: frame_def)

lemma new_trans_closed:
  assumes "new_closed N T h" and "N \<le> a" "a < nstates h" "N \<le> b" "b < nstates h"
  shows "new_closed N T (fst (new_trans h \<lparr>test = p, frm = a, to = b\<rparr>))"
proof -
  let ?h = "fst (new_trans h \<lparr>test = p, frm = a, to = b\<rparr>)"
  have "state_new N T ?h x" if "N \<le> x" "x < nstates h" for x
  proof -
    from assms(1) that have "state_new N T h x" by (simp add: new_closed_def)
    then show ?thesis by (rule state_new_mono) simp_all
  qed
  moreover have "trans_new N ?h t" if "T \<le> t" "t < Suc (ntrans h)" for t
  proof (cases "t = ntrans h")
    case True
    then show ?thesis using assms(2-5) by (simp add: trans_new_def)
  next
    case False
    with that have "t < ntrans h" by simp
    with assms(1) that(1) have "trans_new N h t" by (simp add: new_closed_def)
    then show ?thesis by (rule trans_new_mono) (simp_all add: False)
  qed
  ultimately show ?thesis using assms(1) by (simp add: new_closed_def)
qed

lemma new_trans_frame: "T \<le> ntrans h \<Longrightarrow> frame N T h (fst (new_trans h tr))"
  by (simp add: frame_def)

lemma addOut_closed:
  assumes "new_closed N T h" and "N \<le> c" "c < nstates h" "T \<le> t" "t < ntrans h"
  shows "new_closed N T (addOut h c t)"
proof -
  have "state_new N T (addOut h c t) x" if "N \<le> x" "x < nstates h" for x
  proof -
    from assms(1) that have "state_new N T h x" by (simp add: new_closed_def)
    then show ?thesis using assms(4,5) by (simp add: state_new_def)
  qed
  moreover have "trans_new N (addOut h c t) u" if "T \<le> u" "u < ntrans h" for u
  proof -
    from assms(1) that have "trans_new N h u" by (simp add: new_closed_def)
    then show ?thesis using assms(2,3) by (auto simp: trans_new_def)
  qed
  ultimately show ?thesis using assms(1) by (simp add: new_closed_def)
qed

lemma addIn_closed:
  assumes "new_closed N T h" and "N \<le> c" "c < nstates h" "T \<le> t" "t < ntrans h"
  shows "new_closed N T (addIn h c t)"
proof -
  have "state_new N T (addIn h c t) x" if "N \<le> x" "x < nstates h" for x
  proof -
    from assms(1) that have "state_new N T h x" by (simp add: new_closed_def)
    then show ?thesis using assms(4,5) by (simp add: state_new_def)
  qed
  moreover have "trans_new N (addIn h c t) u" if "T \<le> u" "u < ntrans h" for u
  proof -
    from assms(1) that have "trans_new N h u" by (simp add: new_closed_def)
    then show ?thesis using assms(2,3) by (auto simp: trans_new_def)
  qed
  ultimately show ?thesis using assms(1) by (simp add: new_closed_def)
qed

lemma addOut_frame: "N \<le> c \<Longrightarrow> T \<le> t \<Longrightarrow> frame N T h (addOut h c t)"
  by (simp add: frame_def)

lemma addIn_frame: "N \<le> c \<Longrightarrow> T \<le> t \<Longrightarrow> frame N T h (addIn h c t)"
  by (simp add: frame_def)

lemma upd_state_frame: "N \<le> c \<Longrightarrow> frame N T h (upd_state h c f)"
  by (simp add: frame_def)

lemma foldE_invariant:
  assumes "foldE f xs s = Inr s'" and "I s"
    and "\<And>x s s'. x \<in> set xs \<Longrightarrow> I s \<Longrightarrow> f x s = Inr s' \<Longrightarrow> I s'"
  shows "I s'"
  using assms
proof (induction xs arbitrary: s)
  case Nil
  then show ?case by simp
next
  case (Cons x xs)
  from Cons.prems(1) obtain s1 where s1: "f x s = Inr s1" "foldE f xs s1 = Inr s'"
    by (auto split: sum.splits)
  show ?case
  proof (rule Cons.IH[OF s1(2)])
    show "I s1" by (rule Cons.prems(3)[OF _ Cons.prems(2) s1(1)]) simp
  next
    fix y t t' assume "y \<in> set xs" "I t" "f y t = Inr t'"
    then show "I t'" using Cons.prems(3)[of y t t'] by simp
  qed
qed

lemma bindE_InrE:
  assumes "bindE m f = Inr y"
  obtains x where "m = Inr x" and "f x = Inr y"
  using assms by (cases m) (simp_all add: bindE_def)

lemma fold_invariant:
  assumes "I s" and "\<And>x s. x \<in> set xs \<Longrightarrow> I s \<Longrightarrow> I (f x s)"
  shows "I (fold f xs s)"
  using assms by (induction xs arbitrary: s) simp_all

lemma upd_anded_closed:
  assumes "new_closed N T h" and "\<And>y. Some y \<in> set (andedStates (f (states h c))) \<Longrightarrow> N \<le> y \<and> y < nstates h"
    and "out (f (states h c)) = out (states h c)" and "ins (f (states h c)) = ins (states h c)"
  shows "new_closed N T (upd_state h c f)"
proof -
  have "state_new N T (upd_state h c f) x" if "N \<le> x" "x < nstates h" for x
  proof -
    from assms(1) that have "state_new N T h x" by (simp add: new_closed_def)
    then show ?thesis using assms(2,3,4) by (auto simp: state_new_def)
  qed
  moreover have "trans_new N (upd_state h c f) u" if "T \<le> u" "u < ntrans h" for u
  proof -
    from assms(1) that have "trans_new N h u" by (simp add: new_closed_def)
    then show ?thesis by (simp add: trans_new_def)
  qed
  ultimately show ?thesis using assms(1) by (simp add: new_closed_def)
qed

lemma new_closed_anded:
  assumes "new_closed N T h" and "N \<le> c" and "c < nstates h"
    and "Some y \<in> set (andedStates (states h c))"
  shows "N \<le> y \<and> y < nstates h"
proof -
  from assms(1-3) have "state_new N T h c" unfolding new_closed_def by blast
  then show ?thesis using assms(4) unfolding state_new_def by blast
qed

lemma doCopy_edge_inv:
  assumes inv: "copy_inv N T h m" and sc: "N \<le> sc" "sc < nstates h"
    and nt: "N \<le> newTo" "newTo < nstates h"
  shows "copy_inv N T
           (addIn (addOut (fst (new_trans h \<lparr>test = p, frm = sc, to = newTo\<rparr>)) sc
                     (snd (new_trans h \<lparr>test = p, frm = sc, to = newTo\<rparr>))) newTo
              (snd (new_trans h \<lparr>test = p, frm = sc, to = newTo\<rparr>))) m"
    and "frame N T h
           (addIn (addOut (fst (new_trans h \<lparr>test = p, frm = sc, to = newTo\<rparr>)) sc
                     (snd (new_trans h \<lparr>test = p, frm = sc, to = newTo\<rparr>))) newTo
              (snd (new_trans h \<lparr>test = p, frm = sc, to = newTo\<rparr>)))"
proof -
  let ?h1 = "fst (new_trans h \<lparr>test = p, frm = sc, to = newTo\<rparr>)"
  let ?t = "snd (new_trans h \<lparr>test = p, frm = sc, to = newTo\<rparr>)"
  have c: "new_closed N T h" and cm: "copies_new N h m" using inv by (simp_all add: copy_inv_def)
  have T: "T \<le> ntrans h" using c by (simp add: new_closed_def)
  have c1: "new_closed N T ?h1" using c sc nt by (rule new_trans_closed)
  have t: "T \<le> ?t" "?t < ntrans ?h1" using T by simp_all
  have c2: "new_closed N T (addOut ?h1 sc ?t)"
    using c1 sc(1) _ t by (rule addOut_closed) (simp add: sc(2))
  have c3: "new_closed N T (addIn (addOut ?h1 sc ?t) newTo ?t)"
    using c2 nt(1) _ t(1) by (rule addIn_closed) (simp_all add: nt(2))
  have "copies_new N (addIn (addOut ?h1 sc ?t) newTo ?t) m"
    using cm by (rule copies_new_mono) simp
  with c3 show "copy_inv N T (addIn (addOut ?h1 sc ?t) newTo ?t) m" by (simp add: copy_inv_def)
  have "frame N T h ?h1" using T by (rule new_trans_frame)
  moreover have "frame N T ?h1 (addOut ?h1 sc ?t)" using sc(1) t(1) by (rule addOut_frame)
  moreover have "frame N T (addOut ?h1 sc ?t) (addIn (addOut ?h1 sc ?t) newTo ?t)"
    using nt(1) t(1) by (rule addIn_frame)
  ultimately show "frame N T h (addIn (addOut ?h1 sc ?t) newTo ?t)"
    by (blast intro: frame_trans)
qed

lemma copyOf_inv:
  assumes "copy_inv N T h m" and "copyOf h s m = (h1, m1, sc)"
  shows "copy_inv N T h1 m1 \<and> frame N T h h1 \<and> N \<le> sc \<and> sc < nstates h1"
proof -
  have cl: "new_closed N T h" and cm: "copies_new N h m"
    using assms(1) by (simp_all add: copy_inv_def)
  have N: "N \<le> nstates h" using cl by (simp add: new_closed_def)
  show ?thesis
  proof (cases "m s")
    case None
    with assms(2) have e: "h1 = fst (new_state h)" "m1 = m(s \<mapsto> nstates h)" "sc = nstates h"
      by (auto simp: copyOf_def case_prod_unfold Let_def)
    have "new_closed N T h1" unfolding e using cl by (rule new_state_closed)
    moreover have "copies_new N h1 m1"
      unfolding e using cm N by (auto simp: copies_new_def less_Suc_eq)
    moreover have "frame N T h h1" unfolding e using N by (rule new_state_frame)
    ultimately show ?thesis using N by (simp add: copy_inv_def e)
  next
    case (Some c')
    with assms(2) have e: "h1 = h" "m1 = m" "sc = c'" by (auto simp: copyOf_def)
    from cm Some have "N \<le> c'" "c' < nstates h" by (auto simp: copies_new_def)
    then show ?thesis using assms(1) by (simp add: e frame_refl)
  qed
qed

lemma copyEdge_inv:
  assumes rec: "\<And>h s m h' m' c. rec h s m = Inr (h', m', c) \<Longrightarrow> copy_inv N T h m \<Longrightarrow>
                  copy_inv N T h' m' \<and> frame N T h h' \<and> N \<le> c \<and> c < nstates h'"
    and e: "copyEdge rec sc x (h, m) = Inr (h', m')"
    and inv: "copy_inv N T h m" and sc: "N \<le> sc" "sc < nstates h"
  shows "copy_inv N T h' m' \<and> frame N T h h' \<and> sc < nstates h'"
proof -
  from e have "bindE (rec h (to (transitions h x)) m) (\<lambda>(h', m', newTo).
          let (h'', tran) =
                new_trans h' \<lparr>test = test (transitions h' x), frm = sc, to = newTo\<rparr>
          in Inr (addIn (addOut h'' sc tran) newTo tran, m')) = Inr (h', m')"
    by (simp add: copyEdge_def)
  then obtain r where
    r: "rec h (to (transitions h x)) m = Inr r"
       "(\<lambda>(h', m', newTo).
          let (h'', tran) =
                new_trans h' \<lparr>test = test (transitions h' x), frm = sc, to = newTo\<rparr>
          in Inr (addIn (addOut h'' sc tran) newTo tran, m')) r
          = (Inr (h', m') :: error + heap \<times> stateCopies)"
    by (elim bindE_InrE) (rule that, assumption+)
  obtain hb mb newTo where rr: "r = (hb, mb, newTo)" by (cases r) auto
  have d: "rec h (to (transitions h x)) m = Inr (hb, mb, newTo)" using r(1) rr by simp
  have h': "h' = addIn (addOut (fst (new_trans hb \<lparr>test = test (transitions hb x), frm = sc, to = newTo\<rparr>)) sc
                     (snd (new_trans hb \<lparr>test = test (transitions hb x), frm = sc, to = newTo\<rparr>))) newTo
              (snd (new_trans hb \<lparr>test = test (transitions hb x), frm = sc, to = newTo\<rparr>))"
    and m': "m' = mb"
    using r(2) unfolding rr by (simp_all add: case_prod_unfold Let_def)
  from rec[OF d inv] have
    ib: "copy_inv N T hb mb" "frame N T h hb" "N \<le> newTo" "newTo < nstates hb" by simp_all
  have scb: "sc < nstates hb" using sc(2) ib(2) by (simp add: frame_def)
  note q = doCopy_edge_inv[OF ib(1) sc(1) scb ib(3,4), of "test (transitions hb x)"]
  have "frame N T h h'" unfolding h' using ib(2) q(2) by (rule frame_trans)
  moreover have "sc < nstates h'" unfolding h' using scb by simp
  ultimately show ?thesis using q(1) by (simp add: h' m')
qed

lemma copyFields_inv:
  assumes inv: "copy_inv N T h m" and sc: "N \<le> sc" "sc < nstates h"
  shows "new_closed N T (copyFields h m sc s) \<and> frame N T h (copyFields h m sc s) \<and>
         nstates (copyFields h m sc s) = nstates h"
proof -
  define J where "J = (\<lambda>hx. new_closed N T hx \<and> frame N T h hx \<and> nstates hx = nstates h)"
  let ?h3 = "fold (\<lambda>andedState h. upd_state h sc
                     (\<lambda>st. st\<lparr>andedStates := andedStates st @ [lookup_copy m andedState]\<rparr>))
                   (andedStates (states h s)) h"
  have "J ?h3"
  proof (rule fold_invariant)
    show "J h" using inv by (simp add: J_def copy_inv_def frame_refl)
  next
    fix x hx assume Jx: "J hx"
    let ?hy = "upd_state hx sc (\<lambda>st. st\<lparr>andedStates := andedStates st @ [lookup_copy m x]\<rparr>)"
    have "new_closed N T ?hy"
    proof (rule upd_anded_closed)
      show "new_closed N T hx" using Jx by (simp add: J_def)
    next
      fix y assume y: "Some y \<in> set (andedStates ((states hx sc)\<lparr>andedStates := andedStates (states hx sc) @ [lookup_copy m x]\<rparr>))"
      show "N \<le> y \<and> y < nstates hx"
      proof (cases "Some y \<in> set (andedStates (states hx sc))")
        case True
        then show ?thesis using Jx sc new_closed_anded[of N T hx sc y] by (simp add: J_def)
      next
        case False
        with y have "lookup_copy m x = Some y" by simp
        then have "\<exists>k. m k = Some y" by (auto simp: lookup_copy_def split: option.splits)
        with inv Jx show ?thesis by (auto simp: copy_inv_def copies_new_def J_def)
      qed
    qed simp_all
    moreover have "frame N T h ?hy"
      using Jx upd_state_frame[OF sc(1), of T hx] by (auto simp: J_def intro: frame_trans)
    ultimately show "J ?hy" using Jx by (simp add: J_def)
  qed
  then have j3: "new_closed N T ?h3" "frame N T h ?h3" "nstates ?h3 = nstates h"
    by (simp_all add: J_def)
  let ?h4 = "upd_state ?h3 sc (\<lambda>st. st\<lparr>action := action (states ?h3 s)\<rparr>)"
  have c4: "new_closed N T ?h4"
  proof (rule upd_anded_closed[OF j3(1)])
    fix y assume "Some y \<in> set (andedStates ((states ?h3 sc)\<lparr>action := action (states ?h3 s)\<rparr>))"
    then have "Some y \<in> set (andedStates (states ?h3 sc))" by simp
    from new_closed_anded[OF j3(1) sc(1) _ this] sc(2) j3(3) show "N \<le> y \<and> y < nstates ?h3" by simp
  qed simp_all
  have f4: "frame N T ?h3 ?h4" using sc(1) by (rule upd_state_frame)
  have "frame N T h ?h4" using j3(2) f4 by (rule frame_trans)
  moreover have "nstates ?h4 = nstates h" using j3(3) by simp
  ultimately show ?thesis using c4 by (simp add: copyFields_def Let_def)
qed

lemma doCopy_inv:
  "doCopy n h s m = Inr (h', m', c) \<Longrightarrow> copy_inv N T h m \<Longrightarrow>
   copy_inv N T h' m' \<and> frame N T h h' \<and> N \<le> c \<and> c < nstates h'"
proof (induction n arbitrary: h s m h' m' c)
  case 0
  then show ?case by simp
next
  case (Suc n)
  obtain h1 m1 sc where st: "copyOf h s m = (h1, m1, sc)" by (cases "copyOf h s m") auto
  from copyOf_inv[OF Suc.prems(2) st] have
    s1: "copy_inv N T h1 m1" "frame N T h h1" "N \<le> sc" "sc < nstates h1" by simp_all
  from Suc.prems(1) st have
    "bindE (foldE (copyEdge (doCopy n) sc) (out (states h1 s)) (h1, m1))
          (\<lambda>(h2, m2). Inr (copyFields h2 m2 sc s, m2, sc)) = Inr (h', m', c)"
    by simp
  then obtain r where
    r: "foldE (copyEdge (doCopy n) sc) (out (states h1 s)) (h1, m1) = Inr r"
       "(\<lambda>(h2, m2). Inr (copyFields h2 m2 sc s, m2, sc)) r
          = (Inr (h', m', c) :: error + heap \<times> stateCopies \<times> state_ptr)"
    by (elim bindE_InrE) (rule that, assumption+)
  obtain h2 m2 where rr: "r = (h2, m2)" by (cases r)
  have loop: "foldE (copyEdge (doCopy n) sc) (out (states h1 s)) (h1, m1) = Inr (h2, m2)"
    using r(1) rr by simp
  have fin: "h' = copyFields h2 m2 sc s" "m' = m2" "c = sc"
    using r(2) unfolding rr by auto
  define I where "I = (\<lambda>(h, m). copy_inv N T h m \<and> frame N T h1 h \<and> sc < nstates h)"
  have "I (h2, m2)"
  proof (rule foldE_invariant[OF loop])
    show "I (h1, m1)" using s1 by (simp add: I_def frame_refl)
  next
    fix x a a'
    assume Ia: "I a" and b: "copyEdge (doCopy n) sc x a = Inr a'"
    obtain ha ma where a: "a = (ha, ma)" by (cases a)
    obtain hb mb where a': "a' = (hb, mb)" by (cases a')
    from Ia a have ia: "copy_inv N T ha ma" "frame N T h1 ha" "sc < nstates ha"
      by (simp_all add: I_def)
    from copyEdge_inv[of "doCopy n" N T sc x ha ma hb mb, OF Suc.IH b[unfolded a a'] ia(1) s1(3) ia(3)]
    have ib: "copy_inv N T hb mb" "frame N T ha hb" "sc < nstates hb" by simp_all
    have "frame N T h1 hb" using ia(2) ib(2) by (rule frame_trans)
    then show "I a'" using ib by (simp add: I_def a')
  qed
  then have i2: "copy_inv N T h2 m2" "frame N T h1 h2" "sc < nstates h2" by (simp_all add: I_def)
  from copyFields_inv[OF i2(1) s1(3) i2(3), of s] have
    f: "new_closed N T h'" "frame N T h2 h'" "nstates h' = nstates h2" by (simp_all add: fin(1))
  have "copies_new N h' m'" using i2(1) f(3) by (simp add: copy_inv_def copies_new_def fin(2))
  moreover have "frame N T h h'" using s1(2) i2(2) f(2) by (blast intro: frame_trans)
  ultimately show ?case using f(1) s1(3) i2(3) f(3) by (simp add: copy_inv_def fin(3))
qed

lemma new_closed_start: "new_closed (nstates h) (ntrans h) h"
  by (auto simp: new_closed_def)

lemma new_closed_out:
  assumes "new_closed N T h" and "N \<le> x" and "x < nstates h" and "t \<in> set (out (states h x))"
  shows "T \<le> t \<and> t < ntrans h"
proof -
  from assms(1-3) have "state_new N T h x" unfolding new_closed_def by blast
  then show ?thesis using assms(4) unfolding state_new_def by blast
qed

lemma new_closed_ins:
  assumes "new_closed N T h" and "N \<le> x" and "x < nstates h" and "t \<in> set (ins (states h x))"
  shows "T \<le> t \<and> t < ntrans h"
proof -
  from assms(1-3) have "state_new N T h x" unfolding new_closed_def by blast
  then show ?thesis using assms(4) unfolding state_new_def by blast
qed

lemma new_closed_trans:
  assumes "new_closed N T h" and "T \<le> t" and "t < ntrans h"
  shows "N \<le> frm (transitions h t) \<and> frm (transitions h t) < nstates h \<and>
         N \<le> to (transitions h t) \<and> to (transitions h t) < nstates h"
proof -
  from assms have "trans_new N h t" unfolding new_closed_def by blast
  then show ?thesis unfolding trans_new_def .
qed

lemma new_closed_link:
  assumes "new_closed N T h" and "N \<le> x" and "x < nstates h" and "(x, y) \<in> links h"
  shows "N \<le> y \<and> y < nstates h"
proof -
  from assms(4) consider
    t where "t \<in> set (out (states h x))" "y = frm (transitions h t) \<or> y = to (transitions h t)"
  | t where "t \<in> set (ins (states h x))" "y = frm (transitions h t) \<or> y = to (transitions h t)"
  | "Some y \<in> set (andedStates (states h x))"
    unfolding links_def by blast
  then show ?thesis
  proof cases
    case 1
    from new_closed_out[OF assms(1-3) 1(1)] have "T \<le> t \<and> t < ntrans h" .
    with new_closed_trans[OF assms(1), of t] 1(2) show ?thesis by blast
  next
    case 2
    from new_closed_ins[OF assms(1-3) 2(1)] have "T \<le> t \<and> t < ntrans h" .
    with new_closed_trans[OF assms(1), of t] 2(2) show ?thesis by blast
  next
    case 3
    from new_closed_anded[OF assms(1-3) 3] show ?thesis .
  qed
qed

lemma new_closed_reach:
  assumes "new_closed N T h" and "(x, y) \<in> (links h)\<^sup>*" and "N \<le> x" and "x < nstates h"
  shows "N \<le> y \<and> y < nstates h"
  using assms(2,3,4)
proof (induction rule: rtrancl_induct)
  case base
  then show ?case by simp
next
  case (step y z)
  from step.IH[OF step.prems] have "N \<le> y" "y < nstates h" by simp_all
  from new_closed_link[OF assms(1) this step.hyps(2)] show ?case .
qed

lemma root_new:
  "root n h s = Inr r \<Longrightarrow> new_closed N T h \<Longrightarrow> N \<le> s \<Longrightarrow> s < nstates h \<Longrightarrow>
   N \<le> r \<and> r < nstates h"
proof (induction n arbitrary: s)
  case 0
  then show ?case by simp
next
  case (Suc n)
  show ?case
  proof (cases "ins (states h s)")
    case Nil
    with Suc.prems show ?thesis by simp
  next
    case (Cons t ts)
    then have "t \<in> set (ins (states h s))" by simp
    from new_closed_ins[OF Suc.prems(2,3,4) this] have "T \<le> t \<and> t < ntrans h" .
    with new_closed_trans[OF Suc.prems(2), of t] have
      f: "N \<le> frm (transitions h t)" "frm (transitions h t) < nstates h" by simp_all
    from Suc.prems(1) Cons have "root n h (frm (transitions h t)) = Inr r" by simp
    from Suc.IH[OF this Suc.prems(2) f] show ?thesis .
  qed
qed

lemma copy_inv:
  assumes "copy n h s = Inr (h', r)" and "new_closed N T h"
  shows "new_closed N T h' \<and> frame N T h h' \<and> (\<forall>c. r = Some c \<longrightarrow> N \<le> c \<and> c < nstates h')"
proof -
  from assms(1) have "bindE (root n h s) (\<lambda>r.
     bindE (doCopy n h r Map.empty) (\<lambda>(h', m, c). Inr (h', m s))) = Inr (h', r)"
    by (simp add: copy_def)
  then obtain rt where rt: "root n h s = Inr rt"
    "bindE (doCopy n h rt Map.empty) (\<lambda>(h', m, c). Inr (h', m s))
       = (Inr (h', r) :: error + heap \<times> state_ptr option)"
    by (erule bindE_InrE, (rule that, assumption+)?)
  from rt(2) obtain q where q: "doCopy n h rt Map.empty = Inr q"
    "(\<lambda>(h', m, c). Inr (h', m s)) q = (Inr (h', r) :: error + heap \<times> state_ptr option)"
    by (erule bindE_InrE, (rule that, assumption+)?)
  obtain hq m c where qq: "q = (hq, m, c)" by (cases q) auto
  have e: "hq = h'" "r = m s" using q(2) unfolding qq by auto
  have "copy_inv N T h Map.empty" using assms(2) by (simp add: copy_inv_def copies_new_def)
  from doCopy_inv[OF q(1)[unfolded qq] this] have
    i: "copy_inv N T hq m" "frame N T h hq" by simp_all
  then show ?thesis unfolding e(1) by (auto simp: copy_inv_def copies_new_def e(2))
qed

lemma Test_state_inv:
  assumes "new_closed N T h"
  shows "new_closed N T (fst (Test_state h p)) \<and> frame N T h (fst (Test_state h p)) \<and>
         N \<le> snd (Test_state h p) \<and> snd (Test_state h p) < nstates (fst (Test_state h p))"
proof -
  let ?h1 = "fst (new_state h)"
  let ?from = "nstates h"
  let ?h2 = "fst (new_state ?h1)"
  let ?to = "Suc (nstates h)"
  let ?h3 = "fst (new_trans ?h2 \<lparr>test = p, frm = ?from, to = ?to\<rparr>)"
  let ?t = "ntrans h"
  have N: "N \<le> nstates h" and T: "T \<le> ntrans h" using assms by (simp_all add: new_closed_def)
  have e: "Test_state h p = (addOut (addIn ?h3 ?to ?t) ?from ?t, ?to)"
    by (simp add: Test_state_def case_prod_unfold Let_def)
  have c1: "new_closed N T ?h1" using assms by (rule new_state_closed)
  have c2: "new_closed N T ?h2" using c1 by (rule new_state_closed)
  have c3: "new_closed N T ?h3" using c2 N by (intro new_trans_closed) simp_all
  have c4: "new_closed N T (addIn ?h3 ?to ?t)" using c3 N T by (intro addIn_closed) simp_all
  have c5: "new_closed N T (addOut (addIn ?h3 ?to ?t) ?from ?t)"
    using c4 N T by (intro addOut_closed) simp_all
  have "frame N T h (addOut (addIn ?h3 ?to ?t) ?from ?t)"
    using N T by (simp add: frame_def)
  with c5 N show ?thesis by (simp add: e)
qed

lemma state_inv:
  assumes "new_closed N T h" and "state h src = (h', s)"
  shows "new_closed N T h' \<and> frame N T h h'"
proof (cases src)
  case (OfState x)
  with assms show ?thesis by (auto simp: frame_refl)
next
  case (OfTest p)
  with assms(2) have "h' = fst (Test_state h p)" "s = snd (Test_state h p)" by auto
  with Test_state_inv[OF assms(1), of p] show ?thesis by simp
qed

lemma THEN_state_inv:
  assumes "THEN_state n h from to' = Inr (h', res)" and "new_closed N T h"
  shows "new_closed N T h' \<and> frame N T h h' \<and> N \<le> res \<and> res < nstates h'"
proof -
  from assms(1) have "bindE (copy n h from) (\<lambda>(h1, newFrom).
     let (h2, toSrc) = state h1 to' in
     bindE (copy n h2 toSrc) (\<lambda>(h3, toState).
       case toState of
         None \<Rightarrow> Inl NilDereference
       | Some toState' \<Rightarrow>
           bindE (root n h3 toState') (\<lambda>r.
           bindE (foldE
                    (\<lambda>tran h. case newFrom of
                                 None \<Rightarrow> Inl NilDereference
                               | Some newFrom' \<Rightarrow> Inr (addOut h newFrom' tran))
                    (out (states h3 r)) h3)
                 (\<lambda>h4. Inr (h4, toState'))))) = Inr (h', res)"
    by (simp add: THEN_state_def)
  then obtain c1 where c1: "copy n h from = Inr c1"
    "(\<lambda>(h1, newFrom).
     let (h2, toSrc) = state h1 to' in
     bindE (copy n h2 toSrc) (\<lambda>(h3, toState).
       case toState of
         None \<Rightarrow> Inl NilDereference
       | Some toState' \<Rightarrow>
           bindE (root n h3 toState') (\<lambda>r.
           bindE (foldE
                    (\<lambda>tran h. case newFrom of
                                 None \<Rightarrow> Inl NilDereference
                               | Some newFrom' \<Rightarrow> Inr (addOut h newFrom' tran))
                    (out (states h3 r)) h3)
                 (\<lambda>h4. Inr (h4, toState'))))) c1 = (Inr (h', res) :: error + heap \<times> state_ptr)"
    by (erule bindE_InrE, (rule that, assumption+)?)
  obtain h1 newFrom where c1e: "c1 = (h1, newFrom)" by (cases c1)
  obtain h2 toSrc where st: "state h1 to' = (h2, toSrc)" by (cases "state h1 to'")
  from c1(2) have "bindE (copy n h2 toSrc) (\<lambda>(h3, toState).
       case toState of
         None \<Rightarrow> Inl NilDereference
       | Some toState' \<Rightarrow>
           bindE (root n h3 toState') (\<lambda>r.
           bindE (foldE
                    (\<lambda>tran h. case newFrom of
                                 None \<Rightarrow> Inl NilDereference
                               | Some newFrom' \<Rightarrow> Inr (addOut h newFrom' tran))
                    (out (states h3 r)) h3)
                 (\<lambda>h4. Inr (h4, toState')))) = Inr (h', res)"
    unfolding c1e by (simp add: st)
  then obtain c2 where c2: "copy n h2 toSrc = Inr c2"
    "(\<lambda>(h3, toState).
       case toState of
         None \<Rightarrow> Inl NilDereference
       | Some toState' \<Rightarrow>
           bindE (root n h3 toState') (\<lambda>r.
           bindE (foldE
                    (\<lambda>tran h. case newFrom of
                                 None \<Rightarrow> Inl NilDereference
                               | Some newFrom' \<Rightarrow> Inr (addOut h newFrom' tran))
                    (out (states h3 r)) h3)
                 (\<lambda>h4. Inr (h4, toState')))) c2 = (Inr (h', res) :: error + heap \<times> state_ptr)"
    by (erule bindE_InrE, (rule that, assumption+)?)
  obtain h3 toState where c2e: "c2 = (h3, toState)" by (cases c2)
  from c2(2) obtain ts where ts: "toState = Some ts" and
    b3: "bindE (root n h3 ts) (\<lambda>r.
           bindE (foldE
                    (\<lambda>tran h. case newFrom of
                                 None \<Rightarrow> Inl NilDereference
                               | Some newFrom' \<Rightarrow> Inr (addOut h newFrom' tran))
                    (out (states h3 r)) h3)
                 (\<lambda>h4. Inr (h4, ts))) = (Inr (h', res) :: error + heap \<times> state_ptr)"
    unfolding c2e by (cases toState) simp_all
  from b3 obtain r where r: "root n h3 ts = Inr r"
    "bindE (foldE
                    (\<lambda>tran h. case newFrom of
                                 None \<Rightarrow> Inl NilDereference
                               | Some newFrom' \<Rightarrow> Inr (addOut h newFrom' tran))
                    (out (states h3 r)) h3)
                 (\<lambda>h4. Inr (h4, ts)) = (Inr (h', res) :: error + heap \<times> state_ptr)"
    by (erule bindE_InrE, (rule that, assumption+)?)
  from r(2) obtain h4 where loop: "foldE
                    (\<lambda>tran h. case newFrom of
                                 None \<Rightarrow> Inl NilDereference
                               | Some newFrom' \<Rightarrow> Inr (addOut h newFrom' tran))
                    (out (states h3 r)) h3 = Inr h4"
    and fin: "Inr (h4, ts) = (Inr (h', res) :: error + heap \<times> state_ptr)"
    by (erule bindE_InrE, (rule that, assumption+)?)
  have e: "h' = h4" "res = ts" using fin by simp_all
  from copy_inv[OF c1(1)[unfolded c1e] assms(2)] have
    i1: "new_closed N T h1" "frame N T h h1" "\<forall>c. newFrom = Some c \<longrightarrow> N \<le> c \<and> c < nstates h1"
    by simp_all
  from state_inv[OF i1(1) st] have i2: "new_closed N T h2" "frame N T h1 h2" by simp_all
  from copy_inv[OF c2(1)[unfolded c2e] i2(1)] ts have
    i3: "new_closed N T h3" "frame N T h2 h3" "N \<le> ts" "ts < nstates h3"
    by simp_all
  from root_new[OF r(1) i3(1,3,4)] have rn: "N \<le> r" "r < nstates h3" by simp_all
  have nf: "\<forall>c. newFrom = Some c \<longrightarrow> N \<le> c \<and> c < nstates h3"
    using i1(3) i2(2) i3(2) by (auto simp: frame_def)
  define I where "I = (\<lambda>hx. new_closed N T hx \<and> frame N T h3 hx \<and>
                        nstates hx = nstates h3 \<and> ntrans hx = ntrans h3)"
  have "I h4"
  proof (rule foldE_invariant[OF loop])
    show "I h3" using i3(1) by (simp add: I_def frame_refl)
  next
    fix x hx hy
    assume x: "x \<in> set (out (states h3 r))" and Ix: "I hx"
      and b: "(case newFrom of None \<Rightarrow> Inl NilDereference
               | Some newFrom' \<Rightarrow> Inr (addOut hx newFrom' x)) = Inr hy"
    from b obtain c where c: "newFrom = Some c" "hy = addOut hx c x"
      by (cases newFrom) auto
    from nf c(1) have cn: "N \<le> c" "c < nstates h3" by simp_all
    from new_closed_out[OF i3(1) rn x] have xt: "T \<le> x" "x < ntrans h3" by simp_all
    from Ix have ix: "new_closed N T hx" "frame N T h3 hx" "nstates hx = nstates h3"
      "ntrans hx = ntrans h3" by (simp_all add: I_def)
    have "new_closed N T hy" unfolding c(2)
      using ix(1) cn(1) _ xt(1) by (rule addOut_closed) (simp_all add: ix cn xt)
    moreover have "frame N T hx hy" unfolding c(2) using cn(1) xt(1) by (rule addOut_frame)
    then have "frame N T h3 hy" using ix(2) by (blast intro: frame_trans)
    ultimately show "I hy" using ix(3,4) by (simp add: I_def c(2))
  qed
  then have i4: "new_closed N T h4" "frame N T h3 h4" "nstates h4 = nstates h3"
    by (simp_all add: I_def)
  have "frame N T h h4" using i1(2) i2(2) i3(2) i4(2) by (blast intro: frame_trans)
  then show ?thesis using i4(1,3) i3(3,4) by (simp add: e)
qed

lemma THEN_inv:
  assumes "THEN n h from to' = Inr (h', res)" and "new_closed N T h"
  shows "new_closed N T h' \<and> frame N T h h' \<and> N \<le> res \<and> res < nstates h'"
proof (cases "from")
  case (OfState s)
  with assms(1) have "THEN_state n h s to' = Inr (h', res)" by simp
  from THEN_state_inv[OF this assms(2)] show ?thesis .
next
  case (OfTest p)
  with assms(1) have t: "THEN_state n (fst (Test_state h p)) (snd (Test_state h p)) to' = Inr (h', res)"
    by (simp add: case_prod_unfold Let_def)
  from Test_state_inv[OF assms(2), of p] have
    i: "new_closed N T (fst (Test_state h p))" "frame N T h (fst (Test_state h p))" by simp_all
  from THEN_state_inv[OF t i(1)] i(2) show ?thesis by (blast intro: frame_trans)
qed

text \<open>
  Claim C7. When \<open>THEN\<close> returns, every state and every transition that existed before
  the call is unchanged, field by field: identifier, inbound and outbound lists,
  \<^verbatim>\<open>andedStates\<close>, action, test, source and destination. The state returned is new,
  and so is every state that can be reached from it along pointers of any kind and in
  any direction, and every transition those states hold: the result shares no state and
  no transition with its operands, which can be composed again as they were.
\<close>

theorem THEN_operands_untouched:
  assumes "THEN n h from to' = Inr (h', res)"
  shows "(\<forall>x<nstates h. states h' x = states h x) \<and>
         (\<forall>t<ntrans h. transitions h' t = transitions h t) \<and>
         nstates h \<le> res \<and> res < nstates h' \<and>
         (\<forall>y. (res, y) \<in> (links h')\<^sup>* \<longrightarrow>
              nstates h \<le> y \<and>
              (\<forall>t\<in>set (out (states h' y)) \<union> set (ins (states h' y)). ntrans h \<le> t))"
proof -
  from THEN_inv[OF assms new_closed_start] have
    i: "new_closed (nstates h) (ntrans h) h'" "frame (nstates h) (ntrans h) h h'"
       "nstates h \<le> res" "res < nstates h'"
    by simp_all
  have "nstates h \<le> y \<and>
        (\<forall>t\<in>set (out (states h' y)) \<union> set (ins (states h' y)). ntrans h \<le> t)"
    if y: "(res, y) \<in> (links h')\<^sup>*" for y
  proof -
    from new_closed_reach[OF i(1) y i(3,4)] have yn: "nstates h \<le> y" "y < nstates h'"
      by simp_all
    from new_closed_out[OF i(1) yn] new_closed_ins[OF i(1) yn] yn(1) show ?thesis by blast
  qed
  with i show ?thesis by (simp add: frame_def)
qed

lemma THEN_reuse_returns:
  "\<exists>h' res. THEN 2 (fst (Test_state empty_heap 3)) (OfState 1) (OfTest 1) = Inr (h', res)"
  by (simp add: model_defs empty_heap_def Let_def eval_nat_numeral)

theorem THEN_operands_untouched_witness:
  "\<exists>h' res. THEN 2 (fst (Test_state empty_heap 3)) (OfState 1) (OfTest 1) = Inr (h', res) \<and>
     (\<forall>x<2. states h' x = states (fst (Test_state empty_heap 3)) x) \<and>
     (\<forall>t<1. transitions h' t = transitions (fst (Test_state empty_heap 3)) t) \<and>
     2 \<le> res"
proof -
  from THEN_reuse_returns obtain h' res where
    t: "THEN 2 (fst (Test_state empty_heap 3)) (OfState 1) (OfTest 1) = Inr (h', res)" by blast
  have n: "nstates (fst (Test_state empty_heap 3)) = 2" "ntrans (fst (Test_state empty_heap 3)) = 1"
    by (simp_all add: Test_state_def empty_heap_def case_prod_unfold Let_def)
  from THEN_operands_untouched[OF t] t show ?thesis unfolding n by auto
qed

subsection \<open>Copying a state that two paths lead to\<close>

lemmas v2_defs = OR_state_v2_def

text \<open>
  Claim C9, at \<^verbatim>\<open>a.OR(b).THEN(c)\<close>. In this flow both outbound transitions of the root
  (address 6) lead to the same state (address 7), which has one outbound transition,
  for \<open>c\<close>. \<open>doCopy\<close> from the root, as \<^verbatim>\<open>copy()\<close> calls it, clones the state at 7
  once, but walks its outbound transitions again when the second path reaches it: the
  clone ends with two outbound transitions for \<open>c\<close>.
\<close>

theorem doCopy_repeats_edges:
  "(case flow_a_or_b_then_c of
      Inl _ \<Rightarrow> False
    | Inr (h, s) \<Rightarrow>
        root 3 h s = Inr 6 \<and>
        map (\<lambda>t. (test (transitions h t), to (transitions h t))) (out (states h 6)) = [(1, 7), (2, 7)] \<and>
        map (\<lambda>t. test (transitions h t)) (out (states h 7)) = [3] \<and>
        (case doCopy 3 h 6 Map.empty of
           Inl _ \<Rightarrow> False
         | Inr (h', m, c) \<Rightarrow>
             (case m 7 of
                None \<Rightarrow> False
              | Some c7 \<Rightarrow> map (\<lambda>t. test (transitions h' t)) (out (states h' c7)) = [3, 3])))"
  by (simp add: flow_a_or_b_then_c_def or_defs model_defs Let_def eval_nat_numeral)

text \<open>The \<^verbatim>\<open>doCopy\<close> of \<^verbatim>\<open>src/unnamed/part_004\<close> returns the recorded copy at once.\<close>

lemma doCopy_v2_keeps_edges:
  "(case flow_a_or_b_then_c of
      Inl _ \<Rightarrow> False
    | Inr (h, s) \<Rightarrow>
        (case doCopy_v2 3 h 6 Map.empty of
           Inl _ \<Rightarrow> False
         | Inr (h', m, c) \<Rightarrow>
             (case m 7 of
                None \<Rightarrow> False
              | Some c7 \<Rightarrow> map (\<lambda>t. test (transitions h' t)) (out (states h' c7)) = [3])))"
  by (simp add: flow_a_or_b_then_c_def or_defs model_defs Let_def eval_nat_numeral)

subsection \<open>OR with the operands exchanged\<close>

text \<open>
  Claim C1, at the operands \<^verbatim>\<open>a\<close> and \<^verbatim>\<open>a.THEN(c)\<close>, with \<open>a\<close> accepting the event
  1. \<^verbatim>\<open>a.OR(a.THEN(c))\<close> is finished after the event 1: the left continuation is
  terminal and the edge for \<open>a\<close> leads to the end. \<^verbatim>\<open>a.THEN(c).OR(a)\<close> is not: the left
  continuation is not terminal, the right one is not looked at, and the edge for \<open>a\<close>
  leads to a state that still waits for \<open>c\<close>.
\<close>

theorem OR_not_commutative:
  "outcome 3 (=) (bindE flow_a_then_c (\<lambda>(h, s). OR 3 h (OfTest 1) (OfState s))) [1 :: nat] = Inr True \<and>
   outcome 3 (=) (bindE flow_a_then_c (\<lambda>(h, s). OR 3 h (OfState s) (OfTest 1))) [1 :: nat] = Inr False"
  by (simp add: flow_a_then_c_def outcome_def run_def Advance_def Finished_def Build_def
        or_defs model_defs Let_def eval_nat_numeral)

text \<open>
  The \<^verbatim>\<open>addOrStates\<close> of \<^verbatim>\<open>src/unnamed/part_004\<close> also ends the edge when the right
  continuation is terminal; there both orders finish on the event 1.
\<close>

lemma OR_v2_same_outcome:
  "outcome 3 (=) (bindE flow_a_then_c (\<lambda>(h, s). OR_v2 3 h (OfTest 1) (OfState s))) [1 :: nat] = Inr True \<and>
   outcome 3 (=) (bindE flow_a_then_c (\<lambda>(h, s). OR_v2 3 h (OfState s) (OfTest 1))) [1 :: nat] = Inr True"
  by (simp add: flow_a_then_c_def outcome_def run_def Advance_def Finished_def Build_def
        or_defs v2_defs model_defs Let_def eval_nat_numeral)

subsection \<open>The node that \<^verbatim>\<open>addOrStates\<close> builds\<close>

text \<open>
  \<^verbatim>\<open>addOrStates\<close> writes the state it is called on, the end and the states it
  allocates, and nothing else.
\<close>

lemma keep_refl: "keep S h h"
  by (simp add: keep_def)

lemma keep_trans: "keep S h h1 \<Longrightarrow> keep S h1 h2 \<Longrightarrow> keep S h h2"
  by (simp add: keep_def)

lemma keep_new:
  assumes "keep S h h1" and "keep {nx, e} h1 h2" and "nstates h \<le> nx" and "e \<in> S"
  shows "keep S h h2"
  using assms unfolding keep_def by (metis insertE leD le_trans less_le_trans singletonD)

lemma addOrEdge_cases:
  assumes "addOrEdge rec h st p atEnd e = Inr h'"
  shows "(atEnd \<and> h' = addIn (addOut (fst (new_trans h \<lparr>test = p, frm = st, to = e\<rparr>)) st (ntrans h)) e (ntrans h)) \<or>
         (\<not> atEnd \<and> rec (addIn (addOut (fst (new_trans (fst (new_state h))
                   \<lparr>test = p, frm = st, to = nstates h\<rparr>)) st (ntrans h)) (nstates h) (ntrans h)) (nstates h) = Inr h')"
  using assms by (cases atEnd) (simp_all add: addOrEdge_def case_prod_unfold Let_def)

lemma addOrEdge_keep:
  assumes rec: "\<And>h3 nx h4. rec h3 nx = Inr h4 \<Longrightarrow> keep {nx, e} h3 h4"
    and a: "addOrEdge rec h st p atEnd e = Inr h'"
  shows "keep {st, e} h h'"
proof -
  from addOrEdge_cases[OF a] show ?thesis
  proof (elim disjE conjE)
    assume "h' = addIn (addOut (fst (new_trans h \<lparr>test = p, frm = st, to = e\<rparr>)) st (ntrans h)) e (ntrans h)"
    then show ?thesis by (simp add: keep_def)
  next
    let ?h3 = "addIn (addOut (fst (new_trans (fst (new_state h))
                   \<lparr>test = p, frm = st, to = nstates h\<rparr>)) st (ntrans h)) (nstates h) (ntrans h)"
    assume "rec ?h3 (nstates h) = Inr h'"
    from rec[OF this] have k: "keep {nstates h, e} ?h3 h'" .
    have "keep {st, e} h ?h3" by (simp add: keep_def)
    from keep_new[OF this k] show ?thesis by simp
  qed
qed

lemma addOrStates_keep:
  "addOrStates n h st l r e = Inr h' \<Longrightarrow> keep {st, e} h h'"
proof (induction n arbitrary: h st l r h')
  case 0
  then show ?case by simp
next
  case (Suc n)
  define body1 where "body1 = (\<lambda>tran h.
             let atEnd = (length (out (states h (to (transitions h tran)))) = 0);
                 nextLeft = to (transitions h tran)
             in bindE
                  (if hasTest h r (test (transitions h tran))
                   then (case transitionWithTest h r (test (transitions h tran)) of
                           None \<Rightarrow> Inl NilDereference
                         | Some rt \<Rightarrow> Inr (to (transitions h rt)))
                   else Inr r)
                  (\<lambda>nextRight.
                     addOrEdge (\<lambda>h' next. addOrStates n h' next nextLeft nextRight e)
                       h st (test (transitions h tran)) atEnd e))"
  define body2 where "body2 = (\<lambda>tran h.
               if hasTest h l (test (transitions h tran)) then Inr h
               else
                 let atEnd = (length (out (states h (to (transitions h tran)))) = 0);
                     nextRight = to (transitions h tran)
                 in addOrEdge (\<lambda>h' next. addOrStates n h' next l nextRight e)
                      h st (test (transitions h tran)) atEnd e)"
  from Suc.prems have "bindE (foldE body1 (out (states h l)) h)
       (\<lambda>h1. foldE body2 (out (states h1 r)) h1) = Inr h'"
    by (simp add: body1_def body2_def)
  then obtain h1 where l1: "foldE body1 (out (states h l)) h = Inr h1"
    and l2: "foldE body2 (out (states h1 r)) h1 = Inr h'"
    by (erule bindE_InrE, (rule that, assumption+)?)
  have k1: "keep {st, e} h h1"
  proof (rule foldE_invariant[OF l1, where I = "\<lambda>hx. keep {st, e} h hx"])
    show "keep {st, e} h h" by (rule keep_refl)
  next
    fix x hx hy assume kx: "keep {st, e} h hx" and b: "body1 x hx = Inr hy"
    from b obtain nr where
      "(if hasTest hx r (test (transitions hx x))
                   then (case transitionWithTest hx r (test (transitions hx x)) of
                           None \<Rightarrow> Inl NilDereference
                         | Some rt \<Rightarrow> Inr (to (transitions hx rt)))
                   else Inr r) = Inr nr" and
      "addOrEdge (\<lambda>h' next. addOrStates n h' next (to (transitions hx x)) nr e)
          hx st (test (transitions hx x)) (length (out (states hx (to (transitions hx x)))) = 0) e = Inr hy"
      unfolding body1_def Let_def by (erule bindE_InrE, (rule that, assumption+)?)
    from addOrEdge_keep[OF Suc.IH this(2)] have "keep {st, e} hx hy" .
    with kx show "keep {st, e} h hy" by (rule keep_trans)
  qed
  have k2: "keep {st, e} h1 h'"
  proof (rule foldE_invariant[OF l2, where I = "\<lambda>hx. keep {st, e} h1 hx"])
    show "keep {st, e} h1 h1" by (rule keep_refl)
  next
    fix x hx hy assume kx: "keep {st, e} h1 hx" and b: "body2 x hx = Inr hy"
    show "keep {st, e} h1 hy"
    proof (cases "hasTest hx l (test (transitions hx x))")
      case True
      with b have "hy = hx" by (simp add: body2_def)
      with kx show ?thesis by simp
    next
      case False
      with b have
        "addOrEdge (\<lambda>h' next. addOrStates n h' next l (to (transitions hx x)) e)
          hx st (test (transitions hx x)) (length (out (states hx (to (transitions hx x)))) = 0) e = Inr hy"
        by (simp add: body2_def Let_def)
      from addOrEdge_keep[OF Suc.IH this] have "keep {st, e} hx hy" .
      with kx show ?thesis by (rule keep_trans)
    qed
  qed
  from k1 k2 show ?case by (rule keep_trans)
qed

text \<open>
  The operands are read only, so what the loops read of them is the same in every
  intermediate store.
\<close>

lemma keep_same_old:
  assumes "keep S h h'" and "\<forall>s\<in>S. N \<le> s" and "N \<le> nstates h" and "T \<le> ntrans h"
  shows "same_old N T h h'"
  using assms unfolding keep_def same_old_def by (metis leD less_le_trans)

lemma same_old_closed:
  assumes "same_old N T h h'" and "old_closed N T h" and "nstates h \<le> nstates h'"
    and "ntrans h \<le> ntrans h'"
  shows "old_closed N T h'"
  using assms unfolding same_old_def old_closed_def by (metis le_trans)

lemma twt_loop_cong:
  "\<forall>t\<in>set ts. test (transitions h' t) = test (transitions h t) \<Longrightarrow>
   transitionWithTest_loop h' ts p = transitionWithTest_loop h ts p"
  by (induction ts) simp_all

lemma twt_loop_Some: "transitionWithTest_loop h ts p = Some rt \<Longrightarrow> rt \<in> set ts"
  by (induction ts) (auto split: if_splits)

lemma twt_loop_None:
  "transitionWithTest_loop h ts p = None \<longleftrightarrow> p \<notin> set (map (\<lambda>t. test (transitions h t)) ts)"
  by (induction ts) auto

lemma same_old_facts:
  assumes so: "same_old N T h h'" and oc: "old_closed N T h" and x: "x < N"
  shows "out (states h' x) = out (states h x)"
    and "labels h' x = labels h x"
    and "transitionWithTest h' x p = transitionWithTest h x p"
    and "hasTest h' x p = hasTest h x p"
    and "nextRight_of h' x p = nextRight_of h x p"
    and "nextRight_of h x p < N"
proof -
  show o: "out (states h' x) = out (states h x)" using so x by (simp add: same_old_def)
  have tt: "\<forall>t\<in>set (out (states h x)). t < T" using oc x by (simp add: old_closed_def)
  then have te: "\<forall>t\<in>set (out (states h x)). transitions h' t = transitions h t"
    using so by (simp add: same_old_def)
  show "labels h' x = labels h x" using te by (simp add: labels_def o)
  show tw: "transitionWithTest h' x p = transitionWithTest h x p"
    unfolding transitionWithTest_def o using te by (intro twt_loop_cong) simp
  show "hasTest h' x p = hasTest h x p" by (simp add: hasTest_def tw)
  show "nextRight_of h' x p = nextRight_of h x p"
  proof (cases "transitionWithTest h x p")
    case None
    then show ?thesis by (simp add: nextRight_of_def tw)
  next
    case (Some rt)
    then have "rt \<in> set (out (states h x))"
      unfolding transitionWithTest_def by (rule twt_loop_Some)
    with te have "transitions h' rt = transitions h rt" by simp
    with Some show ?thesis by (simp add: nextRight_of_def tw)
  qed
  show "nextRight_of h x p < N"
  proof (cases "transitionWithTest h x p")
    case None
    then show ?thesis using x by (simp add: nextRight_of_def)
  next
    case (Some rt)
    then have "rt \<in> set (out (states h x))"
      unfolding transitionWithTest_def by (rule twt_loop_Some)
    with oc x have "to (transitions h rt) < N" by (simp add: old_closed_def)
    with Some show ?thesis by (simp add: nextRight_of_def)
  qed
qed

lemma same_old_or_labels:
  assumes "same_old N T h h'" and "old_closed N T h" and "l < N" and "r < N"
  shows "or_labels h' l r = or_labels h l r"
  using same_old_facts(2,4)[OF assms(1,2)] assms(3,4) by (simp add: or_labels_def)

lemma nextRight_code:
  "(if hasTest h r p
    then (case transitionWithTest h r p of
            None \<Rightarrow> Inl NilDereference
          | Some rt \<Rightarrow> Inr (to (transitions h rt)))
    else Inr r) = Inr (nextRight_of h r p)"
  by (auto simp: hasTest_def nextRight_of_def split: option.splits)

lemma foldE_prefix:
  assumes "foldE f xs s = Inr s'" and "P [] s"
    and "\<And>pre x rest s s'. xs = pre @ x # rest \<Longrightarrow> P pre s \<Longrightarrow> f x s = Inr s' \<Longrightarrow> P (pre @ [x]) s'"
  shows "P xs s'"
proof -
  have "foldE f rest s = Inr s' \<Longrightarrow> P pre s \<Longrightarrow> xs = pre @ rest \<Longrightarrow> P xs s'" for pre rest s
  proof (induction rest arbitrary: pre s)
    case Nil
    then show ?case by simp
  next
    case (Cons x rest)
    from Cons.prems(1) obtain s1 where s1: "f x s = Inr s1" "foldE f rest s1 = Inr s'"
      by (auto split: sum.splits)
    have "P (pre @ [x]) s1" using assms(3)[OF Cons.prems(3) Cons.prems(2) s1(1)] .
    from Cons.IH[OF s1(2) this] Cons.prems(3) show ?case by simp
  qed
  from this[OF assms(1,2)] show ?thesis by simp
qed

lemma addOrEdge_step:
  assumes a: "addOrEdge rec hc st p atEnd e = Inr hy"
    and st: "st < nstates hc" "e < nstates hc" "st \<noteq> e"
    and rec: "\<forall>h3 nx h4. rec h3 nx = Inr h4 \<longrightarrow> keep {nx, e} h3 h4"
  shows "out (states hy st) = out (states hc st) @ [ntrans hc]"
    and "ntrans hc < ntrans hy"
    and "test (transitions hy (ntrans hc)) = p"
    and "frm (transitions hy (ntrans hc)) = st"
    and "atEnd \<Longrightarrow> to (transitions hy (ntrans hc)) = e"
    and "\<not> atEnd \<Longrightarrow> to (transitions hy (ntrans hc)) = nstates hc \<and> nstates hc < nstates hy \<and>
           (\<exists>h3. rec h3 (nstates hc) = Inr hy \<and> keep {st, e} hc h3 \<and>
                 out (states h3 (nstates hc)) = [] \<and> nstates h3 = Suc (nstates hc))"
proof -
  let ?hA = "addIn (addOut (fst (new_trans hc \<lparr>test = p, frm = st, to = e\<rparr>)) st (ntrans hc)) e (ntrans hc)"
  let ?hB = "addIn (addOut (fst (new_trans (fst (new_state hc))
                   \<lparr>test = p, frm = st, to = nstates hc\<rparr>)) st (ntrans hc)) (nstates hc) (ntrans hc)"
  from addOrEdge_cases[OF a] consider
    (A) "atEnd" "hy = ?hA" | (B) "\<not> atEnd" "rec ?hB (nstates hc) = Inr hy" by blast
  then have all: "out (states hy st) = out (states hc st) @ [ntrans hc] \<and>
         ntrans hc < ntrans hy \<and> test (transitions hy (ntrans hc)) = p \<and>
         frm (transitions hy (ntrans hc)) = st \<and>
         (atEnd \<longrightarrow> to (transitions hy (ntrans hc)) = e) \<and>
         (\<not> atEnd \<longrightarrow> to (transitions hy (ntrans hc)) = nstates hc \<and> nstates hc < nstates hy \<and>
           (\<exists>h3. rec h3 (nstates hc) = Inr hy \<and> keep {st, e} hc h3 \<and>
                 out (states h3 (nstates hc)) = [] \<and> nstates h3 = Suc (nstates hc)))"
  proof cases
    case A
    then show ?thesis using st by simp
  next
    case B
    from rec[rule_format, OF B(2)] have k: "keep {nstates hc, e} ?hB hy" .
    have sB: "st < nstates ?hB" "st \<notin> {nstates hc, e}" using st by simp_all
    have "states hy st = states ?hB st" using k sB unfolding keep_def by blast
    then have o: "out (states hy st) = out (states hc st) @ [ntrans hc]" using st by simp
    have tB: "ntrans hc < ntrans ?hB" by simp
    then have tr: "transitions hy (ntrans hc) = transitions ?hB (ntrans hc)"
      using k unfolding keep_def by blast
    have n: "ntrans hc < ntrans hy" "nstates hc < nstates hy"
      using k unfolding keep_def by simp_all
    have kB: "keep {st, e} hc ?hB" by (simp add: keep_def)
    have oB: "out (states ?hB (nstates hc)) = []" using st by (auto simp: zero_state_def)
    have "\<exists>h3. rec h3 (nstates hc) = Inr hy \<and> keep {st, e} hc h3 \<and>
                 out (states h3 (nstates hc)) = [] \<and> nstates h3 = Suc (nstates hc)"
      by (rule exI[of _ ?hB]) (intro conjI B(2) kB oB, simp)
    then show ?thesis using B(1) o n tr by simp
  qed
  from all show "out (states hy st) = out (states hc st) @ [ntrans hc]" by simp
  from all show "ntrans hc < ntrans hy" by simp
  from all show "test (transitions hy (ntrans hc)) = p" by simp
  from all show "frm (transitions hy (ntrans hc)) = st" by simp
  from all show "atEnd \<Longrightarrow> to (transitions hy (ntrans hc)) = e" by simp
  from all show "\<not> atEnd \<Longrightarrow> to (transitions hy (ntrans hc)) = nstates hc \<and> nstates hc < nstates hy \<and>
           (\<exists>h3. rec h3 (nstates hc) = Inr hy \<and> keep {st, e} hc h3 \<and>
                 out (states h3 (nstates hc)) = [] \<and> nstates h3 = Suc (nstates hc))" by simp
qed

lemma labels_keep:
  assumes "keep S hc hf" and "x < nstates hc" and "x \<notin> S"
    and "\<forall>u\<in>set (out (states hc x)). u < ntrans hc"
  shows "labels hf x = labels hc x" and "out (states hf x) = out (states hc x)"
proof -
  have s: "states hf x = states hc x" using assms(1,2,3) unfolding keep_def by blast
  then show "out (states hf x) = out (states hc x)" by simp
  have "\<forall>u\<in>set (out (states hc x)). transitions hf u = transitions hc u"
    using assms(1,4) unfolding keep_def by blast
  then show "labels hf x = labels hc x" by (simp add: labels_def s)
qed

lemma edge_built_keep:
  assumes eb: "edge_built h hc st r e t nt" and k: "keep {st, e} hc hf"
    and st: "st < nstates h" "e < nstates h"
  shows "edge_built h hf st r e t nt"
proof -
  have nt: "nt < ntrans hc" using eb by (simp add: edge_built_def)
  then have tr: "transitions hf nt = transitions hc nt" using k unfolding keep_def by blast
  have n: "ntrans hc \<le> ntrans hf" "nstates hc \<le> nstates hf" using k by (simp_all add: keep_def)
  show ?thesis
  proof (cases "out (states h (to (transitions h t))) = []")
    case True
    with eb tr nt n show ?thesis by (simp add: edge_built_def)
  next
    case False
    let ?nx = "to (transitions hc nt)"
    from eb False have
      nx: "nstates h \<le> ?nx" "?nx < nstates hc" "\<forall>u\<in>set (out (states hc ?nx)). u < ntrans hc"
          "labels hc ?nx = or_labels h (to (transitions h t)) (nextRight_of h r (test (transitions h t)))"
      by (simp_all add: edge_built_def)
    have "?nx \<notin> {st, e}" using nx(1) st by auto
    note l = labels_keep[OF k nx(2) this nx(3)]
    have "\<forall>u\<in>set (out (states hf ?nx)). u < ntrans hf" using nx(3) n(1) l(2) by auto
    with eb False tr nt n nx l show ?thesis by (simp add: edge_built_def)
  qed
qed

lemma old_transition:
  assumes "old_closed N T h" and "l < N" and "x \<in> set (out (states h l))"
  shows "x < T" and "to (transitions h x) < N"
  using assms by (simp_all add: old_closed_def)

text \<open>
  For operands \<open>l\<close> and \<open>r\<close> below \<open>N\<close>, and \<open>st\<close> and \<open>e\<close> two different states above:
  \<^verbatim>\<open>st.addOrStates(l, r, e)\<close> adds to \<open>st\<close> one edge for each test of \<open>l\<close>, shared with \<open>r\<close> or
  not, and one for each test of \<open>r\<close> that \<open>l\<close> does not have. The edge for a transition
  of \<open>l\<close> leads to \<open>e\<close> exactly when the left continuation is terminal; otherwise it
  leads to a fresh state, built from the pair of the left continuation and
  \<open>nextRight\<close>, whether the right continuation is terminal or not.
\<close>

lemma addOrStates_node:
  "addOrStates n h st l r e = Inr h' \<Longrightarrow> old_closed N T h \<Longrightarrow> l < N \<Longrightarrow> r < N \<Longrightarrow>
   N \<le> st \<Longrightarrow> st < nstates h \<Longrightarrow> N \<le> e \<Longrightarrow> e < nstates h \<Longrightarrow> st \<noteq> e \<Longrightarrow>
   or_node h h' st l r e"
proof (induction n arbitrary: h st l r h')
  case 0
  then show ?case by simp
next
  case (Suc n)
  note oc = Suc.prems(2) and lN = Suc.prems(3) and rN = Suc.prems(4)
    and stN = Suc.prems(5) and stn = Suc.prems(6) and eN = Suc.prems(7) and en = Suc.prems(8)
    and ne = Suc.prems(9)
  have Nn: "N \<le> nstates h" and Tn: "T \<le> ntrans h" using oc by (simp_all add: old_closed_def)
  have SN: "\<forall>s\<in>{st, e}. N \<le> s" using stN eN by simp
  define body1 where "body1 = (\<lambda>tran h.
             let atEnd = (length (out (states h (to (transitions h tran)))) = 0);
                 nextLeft = to (transitions h tran)
             in bindE
                  (if hasTest h r (test (transitions h tran))
                   then (case transitionWithTest h r (test (transitions h tran)) of
                           None \<Rightarrow> Inl NilDereference
                         | Some rt \<Rightarrow> Inr (to (transitions h rt)))
                   else Inr r)
                  (\<lambda>nextRight.
                     addOrEdge (\<lambda>h' next. addOrStates n h' next nextLeft nextRight e)
                       h st (test (transitions h tran)) atEnd e))"
  define body2 where "body2 = (\<lambda>tran h.
               if hasTest h l (test (transitions h tran)) then Inr h
               else
                 let atEnd = (length (out (states h (to (transitions h tran)))) = 0);
                     nextRight = to (transitions h tran)
                 in addOrEdge (\<lambda>h' next. addOrStates n h' next l nextRight e)
                      h st (test (transitions h tran)) atEnd e)"
  from Suc.prems(1) have "bindE (foldE body1 (out (states h l)) h)
       (\<lambda>h1. foldE body2 (out (states h1 r)) h1) = Inr h'"
    by (simp add: body1_def body2_def)
  then obtain h1 where l1: "foldE body1 (out (states h l)) h = Inr h1"
    and l2: "foldE body2 (out (states h1 r)) h1 = Inr h'"
    by (erule bindE_InrE, (rule that, assumption+)?)
  have rec_keep: "addOrStates n h3 nx a b e = Inr h4 \<Longrightarrow> keep {nx, e} h3 h4" for h3 nx h4 a b
    by (rule addOrStates_keep)
  \<comment> \<open>the first loop\<close>
  define P1 where "P1 = (\<lambda>pre hc. keep {st, e} h hc \<and>
     (\<exists>nts. out (states hc st) = out (states h st) @ nts \<and> length nts = length pre \<and>
            (\<forall>i<length pre. edge_built h hc st r e (pre ! i) (nts ! i))))"
  have "P1 (out (states h l)) h1"
  proof (rule foldE_prefix[OF l1])
    show "P1 [] h" by (simp add: P1_def keep_refl)
  next
    fix pre x rest hc hy
    assume xs: "out (states h l) = pre @ x # rest" and Pc: "P1 pre hc" and b: "body1 x hc = Inr hy"
    from Pc obtain nts where
      kc: "keep {st, e} h hc" and
      oc1: "out (states hc st) = out (states h st) @ nts" and
      ln: "length nts = length pre" and
      eb: "\<forall>i<length pre. edge_built h hc st r e (pre ! i) (nts ! i)"
      unfolding P1_def by blast
    have cnt: "nstates h \<le> nstates hc" "ntrans h \<le> ntrans hc" using kc by (simp_all add: keep_def)
    have so: "same_old N T h hc" using kc SN Nn Tn by (rule keep_same_old)
    have xin: "x \<in> set (out (states h l))" using xs by simp
    note xo = old_transition[OF oc lN xin]
    have tx: "transitions hc x = transitions h x" using so xo(1) by (simp add: same_old_def)
    let ?ln = "to (transitions h x)"
    let ?p = "test (transitions h x)"
    let ?nr = "nextRight_of h r ?p"
    let ?atEnd = "out (states h ?ln) = []"
    have oln: "out (states hc ?ln) = out (states h ?ln)"
      using same_old_facts(1)[OF so oc xo(2)] .
    have nr: "nextRight_of hc r ?p = ?nr" "?nr < N"
      using same_old_facts(5,6)[OF so oc rN] by simp_all
    have a: "addOrEdge (\<lambda>h' next. addOrStates n h' next ?ln ?nr e) hc st ?p ?atEnd e = Inr hy"
      using b unfolding body1_def Let_def tx nextRight_code oln nr(1) by (simp add: bindE_def)
    have stc: "st < nstates hc" "e < nstates hc" using stn en cnt by simp_all
    have rk: "\<And>h3 nx h4. addOrStates n h3 nx ?ln ?nr e = Inr h4 \<Longrightarrow> keep {nx, e} h3 h4"
      by (rule addOrStates_keep)
    have rk': "\<forall>h3 nx h4. addOrStates n h3 nx ?ln ?nr e = Inr h4 \<longrightarrow> keep {nx, e} h3 h4"
      using rk by blast
    note step = addOrEdge_step[OF a stc ne rk']
    have ky: "keep {st, e} hc hy" using rk a by (rule addOrEdge_keep)
    have khy: "keep {st, e} h hy" using kc ky by (rule keep_trans)
    let ?nt = "ntrans hc"
    have new: "edge_built h hy st r e x ?nt"
    proof (cases ?atEnd)
      case True
      with step(2,3,4) step(5)[OF True] show ?thesis by (simp add: edge_built_def)
    next
      case False
      from step(6)[OF False] obtain h3 where
        to: "to (transitions hy ?nt) = nstates hc" and nlt: "nstates hc < nstates hy" and
        r3: "addOrStates n h3 (nstates hc) ?ln ?nr e = Inr hy" and k3: "keep {st, e} hc h3" and
        o3: "out (states h3 (nstates hc)) = []" and n3: "nstates h3 = Suc (nstates hc)"
        by blast
      have kh3: "keep {st, e} h h3" using kc k3 by (rule keep_trans)
      have so3: "same_old N T h h3" using kh3 SN Nn Tn by (rule keep_same_old)
      have cnt3: "nstates h \<le> nstates h3" "ntrans h \<le> ntrans h3" using kh3 by (simp_all add: keep_def)
      have oc3: "old_closed N T h3" using so3 oc cnt3 by (rule same_old_closed)
      have "or_node h3 hy (nstates hc) ?ln ?nr e"
        using r3 oc3 xo(2) nr(2)
      proof (rule Suc.IH)
        show "N \<le> nstates hc" using Nn cnt(1) by simp
        show "nstates hc < nstates h3" using n3 by simp
        show "N \<le> e" by (rule eN)
        show "e < nstates h3" using en cnt3(1) by simp
        show "nstates hc \<noteq> e" using stc(2) by simp
      qed
      then obtain nts' where
        n': "out (states hy (nstates hc)) = nts'" "\<forall>u\<in>set nts'. u < ntrans hy"
            "map (\<lambda>u. test (transitions hy u)) nts' = or_labels h3 ?ln ?nr"
        unfolding or_node_def o3 by auto
      have "or_labels h3 ?ln ?nr = or_labels h ?ln ?nr"
        using so3 oc xo(2) nr(2) by (rule same_old_or_labels)
      with n' have "labels hy (nstates hc) = or_labels h ?ln ?nr" by (simp add: labels_def)
      with False step(2,3,4) to nlt n'(1,2) cnt(1) show ?thesis by (simp add: edge_built_def)
    qed
    have old: "\<forall>i<length pre. edge_built h hy st r e (pre ! i) (nts ! i)"
      using eb edge_built_keep[OF _ ky stn en] by blast
    have "\<forall>i<length (pre @ [x]). edge_built h hy st r e ((pre @ [x]) ! i) ((nts @ [?nt]) ! i)"
    proof (intro allI impI)
      fix i assume "i < length (pre @ [x])"
      then consider "i < length pre" | "i = length pre" by fastforce
      then show "edge_built h hy st r e ((pre @ [x]) ! i) ((nts @ [?nt]) ! i)"
      proof cases
        case 1
        with old ln show ?thesis by (simp add: nth_append)
      next
        case 2
        with new ln show ?thesis by (simp add: nth_append)
      qed
    qed
    moreover have "out (states hy st) = out (states h st) @ (nts @ [?nt])"
      using step(1) oc1 by simp
    moreover have "length (nts @ [?nt]) = length (pre @ [x])" using ln by simp
    ultimately show "P1 (pre @ [x]) hy" unfolding P1_def using khy by blast
  qed
  then obtain nts1 where
    k1: "keep {st, e} h h1" and
    o1: "out (states h1 st) = out (states h st) @ nts1" and
    len1: "length nts1 = length (out (states h l))" and
    eb1: "\<forall>i<length (out (states h l)). edge_built h h1 st r e (out (states h l) ! i) (nts1 ! i)"
    unfolding P1_def by blast
  have cnt1: "nstates h \<le> nstates h1" "ntrans h \<le> ntrans h1" using k1 by (simp_all add: keep_def)
  have so1: "same_old N T h h1" using k1 SN Nn Tn by (rule keep_same_old)
  have or1: "out (states h1 r) = out (states h r)" using same_old_facts(1)[OF so1 oc rN] .
  \<comment> \<open>the second loop\<close>
  define P2 where "P2 = (\<lambda>pre hc. keep {st, e} h1 hc \<and>
     (\<exists>nts. out (states hc st) = out (states h1 st) @ nts \<and>
            (\<forall>u\<in>set nts. u < ntrans hc) \<and>
            map (\<lambda>u. test (transitions hc u)) nts =
              filter (\<lambda>p. \<not> hasTest h l p) (map (\<lambda>t. test (transitions h t)) pre)))"
  have "P2 (out (states h1 r)) h'"
  proof (rule foldE_prefix[OF l2])
    show "P2 [] h1" by (simp add: P2_def keep_refl)
  next
    fix pre x rest hc hy
    assume xs: "out (states h1 r) = pre @ x # rest" and Pc: "P2 pre hc" and b: "body2 x hc = Inr hy"
    from Pc obtain nts where
      kc: "keep {st, e} h1 hc" and
      oc2: "out (states hc st) = out (states h1 st) @ nts" and
      lt: "\<forall>u\<in>set nts. u < ntrans hc" and
      tests: "map (\<lambda>u. test (transitions hc u)) nts =
              filter (\<lambda>p. \<not> hasTest h l p) (map (\<lambda>t. test (transitions h t)) pre)"
      unfolding P2_def by blast
    have kh: "keep {st, e} h hc" using k1 kc by (rule keep_trans)
    have cnt: "nstates h \<le> nstates hc" "ntrans h \<le> ntrans hc" using kh by (simp_all add: keep_def)
    have so: "same_old N T h hc" using kh SN Nn Tn by (rule keep_same_old)
    have xin: "x \<in> set (out (states h r))" using xs or1 by simp
    note xo = old_transition[OF oc rN xin]
    have tx: "transitions hc x = transitions h x" using so xo(1) by (simp add: same_old_def)
    let ?p = "test (transitions h x)"
    have ht: "hasTest hc l ?p = hasTest h l ?p" using same_old_facts(4)[OF so oc lN] .
    show "P2 (pre @ [x]) hy"
    proof (cases "hasTest h l ?p")
      case True
      with b have "hy = hc" by (simp add: body2_def tx ht)
      with kc oc2 lt tests True show ?thesis unfolding P2_def by auto
    next
      case False
      with b have a: "addOrEdge (\<lambda>h' next. addOrStates n h' next l (to (transitions h x)) e)
                         hc st ?p (length (out (states hc (to (transitions h x)))) = 0) e = Inr hy"
        by (simp add: body2_def tx ht Let_def)
      have stc: "st < nstates hc" "e < nstates hc" using stn en cnt by simp_all
      have rk: "\<And>h3 nx h4. addOrStates n h3 nx l (to (transitions h x)) e = Inr h4 \<Longrightarrow>
                  keep {nx, e} h3 h4"
        by (rule addOrStates_keep)
      have rk': "\<forall>h3 nx h4. addOrStates n h3 nx l (to (transitions h x)) e = Inr h4 \<longrightarrow>
                  keep {nx, e} h3 h4"
        using rk by blast
      note step = addOrEdge_step[OF a stc ne rk']
      have ky: "keep {st, e} hc hy" using rk a by (rule addOrEdge_keep)
      have "\<forall>u\<in>set nts. transitions hy u = transitions hc u"
        using lt ky unfolding keep_def by blast
      then have "map (\<lambda>u. test (transitions hy u)) nts = map (\<lambda>u. test (transitions hc u)) nts"
        by simp
      with tests step(3) False have
        "map (\<lambda>u. test (transitions hy u)) (nts @ [ntrans hc]) =
           filter (\<lambda>p. \<not> hasTest h l p) (map (\<lambda>t. test (transitions h t)) (pre @ [x]))"
        by simp
      moreover have "\<forall>u\<in>set (nts @ [ntrans hc]). u < ntrans hy"
        using lt step(2) by auto
      moreover have "out (states hy st) = out (states h1 st) @ (nts @ [ntrans hc])"
        using step(1) oc2 by simp
      moreover have "keep {st, e} h1 hy" using kc ky by (rule keep_trans)
      ultimately show ?thesis unfolding P2_def by blast
    qed
  qed
  then obtain nts2 where
    k2: "keep {st, e} h1 h'" and
    o2: "out (states h' st) = out (states h1 st) @ nts2" and
    lt2: "\<forall>u\<in>set nts2. u < ntrans h'" and
    t2: "map (\<lambda>u. test (transitions h' u)) nts2 =
              filter (\<lambda>p. \<not> hasTest h l p) (map (\<lambda>t. test (transitions h t)) (out (states h r)))"
    unfolding P2_def or1 by blast
  \<comment> \<open>together\<close>
  have eb': "\<forall>i<length (out (states h l)). edge_built h h' st r e (out (states h l) ! i) (nts1 ! i)"
    using eb1 edge_built_keep[OF _ k2 stn en] by blast
  have lt1: "\<forall>u\<in>set nts1. u < ntrans h'"
  proof
    fix u assume "u \<in> set nts1"
    then obtain i where "i < length nts1" "nts1 ! i = u" by (auto simp: in_set_conv_nth)
    with eb' len1 show "u < ntrans h'" by (auto simp: edge_built_def)
  qed
  have t1: "map (\<lambda>u. test (transitions h' u)) nts1 = labels h l"
    unfolding labels_def
  proof (rule nth_equalityI)
    show "length (map (\<lambda>u. test (transitions h' u)) nts1)
            = length (map (\<lambda>t. test (transitions h t)) (out (states h l)))"
      using len1 by simp
  next
    fix i assume "i < length (map (\<lambda>u. test (transitions h' u)) nts1)"
    then have i: "i < length (out (states h l))" using len1 by simp
    with eb' have "test (transitions h' (nts1 ! i)) = test (transitions h (out (states h l) ! i))"
      by (simp add: edge_built_def)
    with i len1 show "map (\<lambda>u. test (transitions h' u)) nts1 ! i
            = map (\<lambda>t. test (transitions h t)) (out (states h l)) ! i"
      by simp
  qed
  have "out (states h' st) = out (states h st) @ (nts1 @ nts2)" using o1 o2 by simp
  moreover have "\<forall>u\<in>set (nts1 @ nts2). u < ntrans h'" using lt1 lt2 by auto
  moreover have "map (\<lambda>u. test (transitions h' u)) (nts1 @ nts2) = or_labels h l r"
    using t1 t2 by (simp add: or_labels_def labels_def)
  moreover have "\<forall>i<length (out (states h l)).
                   edge_built h h' st r e (out (states h l) ! i) ((nts1 @ nts2) ! i)"
    using eb' len1 by (simp add: nth_append)
  ultimately show ?case unfolding or_node_def by blast
qed

subsection \<open>OR at a step that both operands share\<close>

text \<open>
  Claim C3, at \<^verbatim>\<open>a.THEN(c).OR(a)\<close>. The left operand has the root 2, with one edge for
  \<open>a\<close> to the state 3, which has an edge for \<open>c\<close>; the right operand is the lifted test
  \<open>a\<close>, the root 8 with one edge for \<open>a\<close> to the terminal state 9. The step for \<open>a\<close> is
  shared. \<^verbatim>\<open>addOrStates\<close> builds one single edge for \<open>a\<close> from the start (10), but the
  right continuation, which is terminal, does not end it: the edge leads to a fresh
  state (12), not to the end (11), and that state waits for \<open>c\<close>.
\<close>

theorem OR_shared_step_right_terminal:
  "(case flow_a_then_c of
      Inl _ \<Rightarrow> False
    | Inr (h, s) \<Rightarrow>
        root 3 h s = Inr 2 \<and>
        out_edges h 2 = [(1, 3)] \<and> out_edges h 3 = [(3, 7)] \<and>
        (case OR 3 h (OfState s) (OfTest 1) of
           Inl _ \<Rightarrow> False
         | Inr (h', e) \<Rightarrow>
             root 3 h' 8 = Inr 8 \<and>
             out_edges h' 8 = [(1, 9)] \<and> out_edges h' 9 = [] \<and>
             root 3 h' e = Inr 10 \<and> e = 11 \<and>
             out_edges h' 10 = [(1, 12)] \<and> out_edges h' 12 = [(3, 11)]))"
  by (simp add: flow_a_then_c_def out_edges_def or_defs model_defs Let_def eval_nat_numeral)

text \<open>
  The \<^verbatim>\<open>addOrStates\<close> of \<^verbatim>\<open>src/unnamed/part_004\<close> looks at the right continuation of a
  shared step, and leads the edge to the end.
\<close>

lemma OR_v2_shared_step_right_terminal:
  "(case flow_a_then_c of
      Inl _ \<Rightarrow> False
    | Inr (h, s) \<Rightarrow>
        (case OR_v2 3 h (OfState s) (OfTest 1) of
           Inl _ \<Rightarrow> False
         | Inr (h', e) \<Rightarrow>
             root 3 h' e = Inr 10 \<and> e = 11 \<and>
             out_edges h' 10 = [(1, 11)]))"
  by (simp add: flow_a_then_c_def out_edges_def or_defs v2_defs model_defs Let_def eval_nat_numeral)

end
